theory Spec2Isabelle
  imports Complex_Main "HOL-Library.Word"
begin

section \<open>Bytes\<close>

text \<open>
  The builder and the scanner work on \<^verbatim>\<open>char\<close> buffers. A buffer is a list of
  bytes; the two bytes the code compares against are the line feed and the carriage
  return.
\<close>

type_synonym bytes = "char list"

abbreviation LF :: char where "LF \<equiv> CHR 0x0A"
abbreviation CR :: char where "CR \<equiv> CHR 0x0D"

section \<open>build.cpp: end-of-line normalisation\<close>

text \<open>
  \<^verbatim>\<open>normalizeEOL(char* data, size_t size)\<close> rewrites the buffer in place with a read
  index \<open>i\<close> and a write index \<open>result\<close>, and returns the new length. The loop is
  modelled on the buffer itself, with the write \<^verbatim>\<open>data[result++] = ...\<close> as a list
  update; a carriage return followed by a line feed advances \<open>i\<close> twice.
\<close>

function normalizeEOL_loop :: "bytes \<Rightarrow> nat \<Rightarrow> nat \<Rightarrow> nat \<Rightarrow> bytes \<times> nat" where
  "normalizeEOL_loop data sz i result =
     (if i < sz then
        (if data ! i = CR then
           (let data' = data[result := LF] in
            if i + 1 < sz \<and> data' ! (i + 1) = LF
            then normalizeEOL_loop data' sz (i + 2) (result + 1)
            else normalizeEOL_loop data' sz (i + 1) (result + 1))
         else normalizeEOL_loop (data[result := data ! i]) sz (i + 1) (result + 1))
      else (data, result))"
  by pat_completeness auto
termination
  by (relation "measure (\<lambda>(data, sz, i, result). sz - i)") auto

declare normalizeEOL_loop.simps [simp del]

definition normalizeEOL :: "bytes \<Rightarrow> nat \<Rightarrow> bytes \<times> nat" where
  "normalizeEOL data sz = normalizeEOL_loop data sz 0 0"

text \<open>
  What the comment of the function promises, written on lists: \<^verbatim>\<open>\r\n\<close> becomes
  \<^verbatim>\<open>\n\<close>, a stray \<^verbatim>\<open>\r\<close> becomes \<^verbatim>\<open>\n\<close>, every other byte is kept in place.
\<close>

fun eol_spec :: "bytes \<Rightarrow> bytes" where
  "eol_spec [] = []"
| "eol_spec [x] = [if x = CR then LF else x]"
| "eol_spec (x # y # zs) =
     (if x = CR \<and> y = LF then LF # eol_spec zs
      else (if x = CR then LF else x) # eol_spec (y # zs))"


text \<open>
  \<^verbatim>\<open>readFile\<close> collects what the stream delivers (the argument \<open>raw\<close>), normalises
  a non-empty buffer in place and shrinks it to the returned length. The assertion
  \<^verbatim>\<open>size <= result.size()\<close> is a branch of the model: \<open>None\<close> stands for the abort.
\<close>

definition readFile :: "bytes \<Rightarrow> bytes option" where
  "readFile raw =
     (if raw \<noteq> [] then
        (case normalizeEOL raw (length raw) of
           (result, sz) \<Rightarrow> if sz \<le> length result then Some (take sz result) else None)
      else Some raw)"

section \<open>build.cpp: the data model of the builder\<close>

text \<open>
  A \<^verbatim>\<open>Blob\<close> is a window \<open>(offset, count)\<close> into a vector held through a shared
  pointer. Two blobs share a vector only between \<^verbatim>\<open>splitPrefix\<close> and the end of the
  enclosing \<^verbatim>\<open>flushChunk\<close>, where the chunk and its copies are destroyed, and the
  vector is written to only by \<^verbatim>\<open>appendFilePart\<close>; so each blob carries the vector
  by value. Sizes are \<^verbatim>\<open>size_t\<close> counts of bytes held in memory and are natural
  numbers; \<^verbatim>\<open>startLine\<close> is a 32-bit unsigned field and wraps.
\<close>

record Blob =
  offset :: nat
  count :: nat
  storage :: bytes

text \<open>
  \<^verbatim>\<open>Blob::data()\<close> asserts that the window lies inside the vector and returns the
  address of its first byte: the bytes from \<open>offset\<close> to the end of the vector.
\<close>

definition Blob_data :: "Blob \<Rightarrow> bytes option" where
  "Blob_data b =
     (if offset b + count b \<le> length (storage b) then Some (drop (offset b) (storage b))
      else None)"

definition Blob_size :: "Blob \<Rightarrow> nat" where
  "Blob_size b = count b"

text \<open>The constructor \<^verbatim>\<open>Blob(std::vector<char>)\<close>.\<close>

definition Blob_of :: "bytes \<Rightarrow> Blob" where
  "Blob_of v = \<lparr>offset = 0, count = length v, storage = v\<rparr>"

record File =
  name :: string
  contents :: Blob
  startLine :: "32 word"
  fileSize :: "64 word"
  timeStamp :: "64 word"

record Chunk =
  files :: "File list"
  totalSize :: nat

definition Chunk_empty :: Chunk where
  "Chunk_empty = \<lparr>files = [], totalSize = 0\<rparr>"

record DataChunkHeader =
  fileCount :: "32 word"
  uncompressedSize :: "32 word"
  compressedSize :: "32 word"
  indexSize :: "32 word"
  indexHashIterations :: "32 word"

text \<open>
  The output stream \<^verbatim>\<open>outData\<close> is the sequence of chunk records written after the
  magic header. A record written by \<^verbatim>\<open>flushChunk(const Chunk&)\<close> is kept as the chunk
  it was made from: its file headers, bloom index and compressed payload are all
  computed from that chunk (\<^verbatim>\<open>prepareChunkData\<close>, \<^verbatim>\<open>prepareChunkIndex\<close>,
  \<^verbatim>\<open>compress\<close>). A record passed through by \<^verbatim>\<open>appendChunk\<close> is the caller's header,
  index bytes and compressed bytes. The \<^verbatim>\<open>Statistics\<close> counters feed only the progress
  printer and are left out.
\<close>

datatype ChunkRecord =
    Built Chunk
  | Prebuilt DataChunkHeader bytes bytes

record BuilderImpl =
  pendingFiles :: "File list"
  pendingSize :: nat
  outData :: "ChunkRecord list"

text \<open>The constructor, followed by \<^verbatim>\<open>start\<close> on a stream that opens.\<close>

definition BuilderImpl_new :: BuilderImpl where
  "BuilderImpl_new = \<lparr>pendingFiles = [], pendingSize = 0, outData = []\<rparr>"

section \<open>build.cpp: line-aligned splitting\<close>

text \<open>
  \<^verbatim>\<open>skipByLines\<close> keeps its result in \<^verbatim>\<open>std::make_pair(0, 0)\<close>, a pair of
  \<^verbatim>\<open>int\<close>: the position \<open>i + 1\<close> is narrowed to 32 bits on every assignment and the
  line counter is a 32-bit counter. On return the pair is converted to
  \<^verbatim>\<open>std::pair<size_t, unsigned int>\<close>: the position is sign-extended to the 64-bit
  \<^verbatim>\<open>size_t\<close>, the counter keeps its bits.
\<close>

function skipByLines_loop :: "bytes \<Rightarrow> nat \<Rightarrow> nat \<Rightarrow> 32 word \<times> 32 word \<Rightarrow> 32 word \<times> 32 word" where
  "skipByLines_loop data dataSize i result =
     (if i < dataSize then
        skipByLines_loop data dataSize (i + 1)
          (if data ! i = LF then (of_nat (i + 1), snd result + 1) else result)
      else result)"
  by pat_completeness auto
termination
  by (relation "measure (\<lambda>(data, dataSize, i, result). dataSize - i)") auto

declare skipByLines_loop.simps [simp del]

definition skipByLines :: "bytes \<Rightarrow> nat \<Rightarrow> nat \<times> 32 word" where
  "skipByLines data dataSize =
     (case skipByLines_loop data dataSize 0 (0, 0) of
        (first, second) \<Rightarrow> (unat (scast first :: 64 word), second))"

function skipOneLine_loop :: "bytes \<Rightarrow> nat \<Rightarrow> nat \<Rightarrow> nat" where
  "skipOneLine_loop data dataSize i =
     (if i < dataSize then
        (if data ! i = LF then i + 1 else skipOneLine_loop data dataSize (i + 1))
      else dataSize)"
  by pat_completeness auto
termination
  by (relation "measure (\<lambda>(data, dataSize, i). dataSize - i)") auto

declare skipOneLine_loop.simps [simp del]

definition skipOneLine :: "bytes \<Rightarrow> nat \<Rightarrow> nat" where
  "skipOneLine data dataSize = skipOneLine_loop data dataSize 0"

text \<open>
  \<^verbatim>\<open>splitPrefix\<close> returns a copy of the file cut to its first \<open>sz\<close> bytes and moves
  the window of the file itself past them; both are returned. The assertion
  \<^verbatim>\<open>size <= file.contents.size()\<close> is the \<open>None\<close> branch.
\<close>

definition splitPrefix :: "File \<Rightarrow> nat \<Rightarrow> (File \<times> File) option" where
  "splitPrefix file sz =
     (if sz \<le> Blob_size (contents file) then
        Some (file\<lparr>contents := (contents file)\<lparr>count := sz\<rparr>\<rparr>,
              file\<lparr>contents := (contents file)\<lparr>offset := offset (contents file) + sz,
                                                count := count (contents file) - sz\<rparr>\<rparr>)
      else None)"

definition appendChunkFile :: "Chunk \<Rightarrow> File \<Rightarrow> Chunk" where
  "appendChunkFile chunk file =
     chunk\<lparr>totalSize := totalSize chunk + Blob_size (contents file),
           files := files chunk @ [file]\<rparr>"

text \<open>
  \<^verbatim>\<open>appendChunkFilePrefix\<close> changes the chunk and the file; the model returns both.
  \<open>None\<close> is a failed assertion (of \<^verbatim>\<open>data()\<close>, of \<^verbatim>\<open>remainingSize < dataSize\<close>
  or of \<^verbatim>\<open>splitPrefix\<close>).
\<close>

definition appendChunkFilePrefix :: "Chunk \<Rightarrow> File \<Rightarrow> nat \<Rightarrow> (Chunk \<times> File) option" where
  "appendChunkFilePrefix chunk file remainingSize =
     (case Blob_data (contents file) of
        None \<Rightarrow> None
      | Some data \<Rightarrow>
          (let dataSize = Blob_size (contents file) in
           if \<not> remainingSize < dataSize then None
           else
             (let skip = skipByLines data remainingSize in
              if fst skip > 0 \<or> files chunk = [] then
                (let skipSize = (if fst skip > 0 then fst skip else skipOneLine data dataSize);
                     skipLines = (if fst skip > 0 then snd skip else 1)
                 in case splitPrefix file skipSize of
                      None \<Rightarrow> None
                    | Some (prefix, file') \<Rightarrow>
                        Some (chunk\<lparr>totalSize := totalSize chunk + skipSize,
                                    files := files chunk @ [prefix]\<rparr>,
                              file'\<lparr>startLine := startLine file' + skipLines\<rparr>))
              else Some (chunk, file))))"


section \<open>build.cpp: chunk layout\<close>

text \<open>
  \<^verbatim>\<open>prepareChunkData\<close> lays a chunk out as one buffer: the file headers, then the
  names, then the contents, each file's header holding the offsets of its name and
  contents in the buffer. The buffer is kept in its three parts; its size is
  \<^verbatim>\<open>sizeof(DataChunkFileHeader)\<close> per header (six 32-bit and two 64-bit fields, 40
  bytes) plus the bytes of the two other parts. The header fields are 32-bit and the
  \<^verbatim>\<open>size_t\<close> values stored in them are narrowed. The header fields that share a name
  with a field of \<^verbatim>\<open>File\<close> carry the prefix \<open>h_\<close>.
\<close>

record DataChunkFileHeader =
  nameOffset :: "32 word"
  nameLength :: "32 word"
  dataOffset :: "32 word"
  dataSize :: "32 word"
  h_startLine :: "32 word"
  h_reserved :: "32 word"
  h_fileSize :: "64 word"
  h_timeStamp :: "64 word"

record ChunkData =
  headers :: "DataChunkFileHeader list"
  nameBytes :: bytes
  dataBytes :: bytes

definition ChunkData_size :: "ChunkData \<Rightarrow> nat" where
  "ChunkData_size d = 40 * length (headers d) + length (nameBytes d) + length (dataBytes d)"

definition getChunkNameTotalSize :: "Chunk \<Rightarrow> nat" where
  "getChunkNameTotalSize chunk = fold (\<lambda>f result. result + length (name f)) (files chunk) 0"

definition getChunkDataTotalSize :: "Chunk \<Rightarrow> nat" where
  "getChunkDataTotalSize chunk =
     fold (\<lambda>f result. result + Blob_size (contents f)) (files chunk) 0"

fun prepareChunkData_loop ::
  "File list \<Rightarrow> nat \<Rightarrow> nat \<Rightarrow> ChunkData \<Rightarrow> (nat \<times> nat \<times> ChunkData) option" where
  "prepareChunkData_loop [] nameOffset' dataOffset' d = Some (nameOffset', dataOffset', d)"
| "prepareChunkData_loop (f # fs) nameOffset' dataOffset' d =
     (case Blob_data (contents f) of
        None \<Rightarrow> None
      | Some p \<Rightarrow>
          prepareChunkData_loop fs
            (nameOffset' + length (name f)) (dataOffset' + Blob_size (contents f))
            \<lparr>headers = headers d @
               [\<lparr>nameOffset = of_nat nameOffset', nameLength = of_nat (length (name f)),
                 dataOffset = of_nat dataOffset', dataSize = of_nat (Blob_size (contents f)),
                 h_startLine = startLine f, h_reserved = 0,
                 h_fileSize = fileSize f, h_timeStamp = timeStamp f\<rparr>],
             nameBytes = nameBytes d @ name f,
             dataBytes = dataBytes d @ take (Blob_size (contents f)) p\<rparr>)"

text \<open>
  The result is the buffer and the offset at which the contents start; the closing
  assertion on the two running offsets is the last \<open>None\<close> branch.
\<close>

definition prepareChunkData :: "Chunk \<Rightarrow> (ChunkData \<times> nat) option" where
  "prepareChunkData chunk =
     (let headerSize = 40 * length (files chunk);
          nameSize = getChunkNameTotalSize chunk;
          dataSize' = getChunkDataTotalSize chunk;
          totalSize' = headerSize + nameSize + dataSize'
      in case prepareChunkData_loop (files chunk) headerSize (headerSize + nameSize)
                \<lparr>headers = [], nameBytes = [], dataBytes = []\<rparr> of
           None \<Rightarrow> None
         | Some (nameOffset', dataOffset', d) \<Rightarrow>
             if nameOffset' = headerSize + nameSize \<and> dataOffset' = totalSize'
             then Some (d, headerSize + nameSize) else None)"

section \<open>build.cpp: flushing chunks\<close>

text \<open>
  \<^verbatim>\<open>flushChunk(const Chunk&)\<close> writes nothing for a chunk without files; otherwise it
  lays the chunk out (which may fail an assertion of \<^verbatim>\<open>data()\<close>), indexes it,
  compresses it and writes the record.
\<close>

definition flushChunk_chunk :: "Chunk \<Rightarrow> BuilderImpl \<Rightarrow> BuilderImpl option" where
  "flushChunk_chunk chunk s =
     (if files chunk = [] then Some s
      else (case prepareChunkData chunk of
              None \<Rightarrow> None
            | Some (data, off) \<Rightarrow> Some (s\<lparr>outData := outData s @ [Built chunk]\<rparr>)))"

text \<open>
  The loop of \<^verbatim>\<open>flushChunk(size_t size)\<close> takes pending files from the front while
  the chunk is below \<open>sz\<close>. A file that fits is moved whole; one that does not is
  offered to \<^verbatim>\<open>appendChunkFilePrefix\<close>, put back at the front, and ends the loop.
\<close>

fun flushChunk_loop :: "nat \<Rightarrow> Chunk \<Rightarrow> File list \<Rightarrow> (Chunk \<times> File list) option" where
  "flushChunk_loop sz chunk [] = Some (chunk, [])"
| "flushChunk_loop sz chunk (file # pending) =
     (if totalSize chunk < sz then
        (let remainingSize = sz - totalSize chunk in
         if Blob_size (contents file) \<le> remainingSize
         then flushChunk_loop sz (appendChunkFile chunk file) pending
         else (case appendChunkFilePrefix chunk file remainingSize of
                 None \<Rightarrow> None
               | Some (chunk', file') \<Rightarrow> Some (chunk', file' # pending)))
      else Some (chunk, file # pending))"

text \<open>
  After the loop the code asserts \<^verbatim>\<open>chunk.totalSize <= pendingSize\<close>, subtracts and
  stores the chunk.
\<close>

definition flushChunk :: "nat \<Rightarrow> BuilderImpl \<Rightarrow> BuilderImpl option" where
  "flushChunk sz s =
     (case flushChunk_loop sz Chunk_empty (pendingFiles s) of
        None \<Rightarrow> None
      | Some (chunk, pending) \<Rightarrow>
          if totalSize chunk \<le> pendingSize s
          then flushChunk_chunk chunk
                 (s\<lparr>pendingFiles := pending,
                    pendingSize := pendingSize s - totalSize chunk\<rparr>)
          else None)"

text \<open>
  The two \<^verbatim>\<open>while\<close> loops around \<^verbatim>\<open>flushChunk(kChunkSize)\<close> need not end on
  every state (a positive \<open>pendingSize\<close> with no pending file is never reduced), so
  they are partial functions: \<open>None\<close> is a failed assertion or a loop that does not
  return. \<^verbatim>\<open>kChunkSize\<close> comes from \<^verbatim>\<open>constants.hpp\<close>, which is not among the
  sources, and is the first parameter of every function that uses it.
\<close>

partial_function (option) flushIfNeeded :: "nat \<Rightarrow> BuilderImpl \<Rightarrow> BuilderImpl option" where
  "flushIfNeeded kChunkSize s =
     (if pendingSize s \<ge> kChunkSize * 2
      then Option.bind (flushChunk kChunkSize s) (flushIfNeeded kChunkSize)
      else Some s)"

partial_function (option) flush :: "nat \<Rightarrow> BuilderImpl \<Rightarrow> BuilderImpl option" where
  "flush kChunkSize s =
     (if pendingSize s > 0
      then Option.bind (flushChunk kChunkSize s) (flush kChunkSize)
      else Some s)"

declare flushIfNeeded.simps [code]
declare flush.simps [code]

section \<open>build.cpp: appending files and chunks\<close>

text \<open>
  \<^verbatim>\<open>appendFilePart\<close> extends the last pending file when it has the same name, under
  three assertions, and queues a new file otherwise (\<open>File_new\<close> is the record it
  fills in); then it flushes as needed.
\<close>

definition File_new :: "string \<Rightarrow> 32 word \<Rightarrow> bytes \<Rightarrow> 64 word \<Rightarrow> 64 word \<Rightarrow> File" where
  "File_new path startLine' data lastWriteTime fileSize' =
     \<lparr>name = path, contents = Blob_of data, startLine = startLine',
      fileSize = fileSize', timeStamp = lastWriteTime\<rparr>"

definition appendFilePart ::
  "nat \<Rightarrow> string \<Rightarrow> 32 word \<Rightarrow> bytes \<Rightarrow> 64 word \<Rightarrow> 64 word \<Rightarrow> BuilderImpl \<Rightarrow> BuilderImpl option" where
  "appendFilePart kChunkSize path startLine' data lastWriteTime fileSize' s =
     (let dataSize = length data in
      if pendingFiles s \<noteq> [] \<and> name (last (pendingFiles s)) = path then
        (let file = last (pendingFiles s) in
         if \<not> startLine file < startLine' then None
         else if \<not> (timeStamp file = lastWriteTime \<and> fileSize file = fileSize') then None
         else if \<not> offset (contents file) + count (contents file) = length (storage (contents file))
         then None
         else
           flushIfNeeded kChunkSize
             (s\<lparr>pendingFiles := butlast (pendingFiles s) @
                   [file\<lparr>contents := (contents file)
                           \<lparr>storage := storage (contents file) @ data,
                            count := count (contents file) + dataSize\<rparr>\<rparr>],
                pendingSize := pendingSize s + dataSize\<rparr>))
      else
        flushIfNeeded kChunkSize
          (s\<lparr>pendingFiles := pendingFiles s @
                [File_new path startLine' data lastWriteTime fileSize'],
             pendingSize := pendingSize s + dataSize\<rparr>))"

text \<open>The four-argument \<^verbatim>\<open>writeChunk\<close>: header, index bytes, compressed bytes.\<close>

definition writeChunk :: "DataChunkHeader \<Rightarrow> bytes \<Rightarrow> bytes \<Rightarrow> BuilderImpl \<Rightarrow> BuilderImpl" where
  "writeChunk header compressedData index s =
     s\<lparr>outData := outData s @
          [Prebuilt header (take (unat (indexSize header)) index)
                    (take (unat (compressedSize header)) compressedData)]\<rparr>"

text \<open>
  \<^verbatim>\<open>appendChunk\<close> returns \<^verbatim>\<open>false\<close> from two checks and \<^verbatim>\<open>true\<close> after writing
  the caller's chunk; its two assertions are \<open>None\<close> branches.
\<close>

definition appendChunk_write ::
  "DataChunkHeader \<Rightarrow> bytes \<Rightarrow> bytes \<Rightarrow> BuilderImpl \<Rightarrow> (bool \<times> BuilderImpl) option" where
  "appendChunk_write header compressedData index s =
     (if pendingSize s = 0 \<and> pendingFiles s = []
      then Some (True, writeChunk header compressedData index s)
      else None)"

definition appendChunk ::
  "nat \<Rightarrow> DataChunkHeader \<Rightarrow> bytes \<Rightarrow> bytes \<Rightarrow> BuilderImpl \<Rightarrow> (bool \<times> BuilderImpl) option" where
  "appendChunk kChunkSize header compressedData index s0 =
     (case flushIfNeeded kChunkSize s0 of
        None \<Rightarrow> None
      | Some s \<Rightarrow>
          (let kChunkMaxSize = kChunkSize * 3 div 2;
               kChunkMinSize = kChunkMaxSize div 2
           in if pendingSize s > 0 then
                if pendingSize s > kChunkSize * 2 then Some (False, s)
                else if pendingSize s < kChunkMinSize then Some (False, s)
                else
                  (case (if pendingSize s > kChunkMaxSize
                         then flushChunk (pendingSize s div 2) s else Some s) of
                     None \<Rightarrow> None
                   | Some s1 \<Rightarrow>
                       if \<not> pendingSize s1 < kChunkMaxSize then None
                       else (case flushChunk (pendingSize s1) s1 of
                               None \<Rightarrow> None
                             | Some s2 \<Rightarrow> appendChunk_write header compressedData index s2))
              else appendChunk_write header compressedData index s))"


section \<open>build.cpp: building a project\<close>

text \<open>
  \<^verbatim>\<open>appendFile\<close> reads the file, converts it to UTF-8 and appends it from line 0. The
  argument \<open>data\<close> is what \<^verbatim>\<open>convertToUTF8(readFile(in))\<close> returns for the file; a
  file that cannot be opened or read is not modelled. \<^verbatim>\<open>buildProject\<close> appends every
  file of the project to a new builder and destroys the builder, which flushes it. A
  project file is its path, its contents, its time stamp and its size.
\<close>

type_synonym FileInfo = "string \<times> bytes \<times> 64 word \<times> 64 word"

definition appendFile :: "nat \<Rightarrow> string \<Rightarrow> bytes \<Rightarrow> 64 word \<Rightarrow> 64 word \<Rightarrow> BuilderImpl \<Rightarrow> BuilderImpl option" where
  "appendFile kChunkSize path data lastWriteTime fileSize' s =
     appendFilePart kChunkSize path 0 data lastWriteTime fileSize' s"

fun buildProject_loop :: "nat \<Rightarrow> FileInfo list \<Rightarrow> BuilderImpl \<Rightarrow> BuilderImpl option" where
  "buildProject_loop kChunkSize [] s = Some s"
| "buildProject_loop kChunkSize ((path, data, lastWriteTime, fileSize') # fs) s =
     (case appendFile kChunkSize path data lastWriteTime fileSize' s of
        None \<Rightarrow> None
      | Some s' \<Rightarrow> buildProject_loop kChunkSize fs s')"

definition buildProject :: "nat \<Rightarrow> FileInfo list \<Rightarrow> BuilderImpl option" where
  "buildProject kChunkSize fs =
     (case buildProject_loop kChunkSize fs BuilderImpl_new of
        None \<Rightarrow> None
      | Some s \<Rightarrow> flush kChunkSize s)"

text \<open>The file headers of the chunks a builder has written itself, in stream order.\<close>

fun builtHeaders :: "ChunkRecord list \<Rightarrow> DataChunkFileHeader list list" where
  "builtHeaders [] = []"
| "builtHeaders (Built chunk # rs) =
     (case prepareChunkData chunk of
        None \<Rightarrow> builtHeaders rs
      | Some (d, off) \<Rightarrow> headers d # builtHeaders rs)"
| "builtHeaders (Prebuilt header index payload # rs) = builtHeaders rs"

section \<open>Well-formed blobs\<close>

text \<open>
  A blob is well formed when its window lies inside its vector, which is what
  \<^verbatim>\<open>data()\<close> asserts; its bytes are those of the window.
\<close>

definition Blob_ok :: "Blob \<Rightarrow> bool" where
  "Blob_ok b = (offset b + count b \<le> length (storage b))"

definition Blob_bytes :: "Blob \<Rightarrow> bytes" where
  "Blob_bytes b = take (count b) (drop (offset b) (storage b))"

section \<open>search.cpp: scanning one file record\<close>

text \<open>
  The regular-expression engine is a collaborator (\<^verbatim>\<open>regex.hpp\<close>), taken as a
  parameter. \<^verbatim>\<open>rangePrepare\<close> returns the buffer that is searched in place of the
  data; \<^verbatim>\<open>rangeSearch\<close> is given the bytes of a range and returns the first match in
  it, as its offset from the start of the range and its size, or nothing.
\<close>

record Regex =
  rangePrepare :: "bytes \<Rightarrow> bytes"
  rangeSearch :: "bytes \<Rightarrow> (nat \<times> nat) option"

text \<open>
  Pointers into the searched buffer are indices into it. \<^verbatim>\<open>findLineStart\<close> walks
  back from \<open>pos\<close> while it is above \<open>begin\<close>. \<^verbatim>\<open>findLineEnd\<close> and \<^verbatim>\<open>countLines\<close>
  walk forward until the index \<^emph>\<open>equals\<close> the end, which never happens when they are
  started beyond it, so they are partial functions. The line counter is a 32-bit
  unsigned integer.
\<close>

function findLineStart :: "bytes \<Rightarrow> nat \<Rightarrow> nat \<Rightarrow> nat" where
  "findLineStart buf begin s =
     (if s > begin then (if buf ! (s - 1) = LF then s else findLineStart buf begin (s - 1))
      else begin)"
  by pat_completeness auto
termination
  by (relation "measure (\<lambda>(buf, begin, s). s)") auto

declare findLineStart.simps [simp del]

partial_function (option) findLineEnd :: "bytes \<Rightarrow> nat \<Rightarrow> nat \<Rightarrow> nat option" where
  "findLineEnd buf s end' =
     (if s \<noteq> end' then (if buf ! s = LF then Some s else findLineEnd buf (s + 1) end')
      else Some end')"

partial_function (option) countLines_loop :: "bytes \<Rightarrow> nat \<Rightarrow> nat \<Rightarrow> 32 word \<Rightarrow> 32 word option" where
  "countLines_loop buf s end' res =
     (if s \<noteq> end' then countLines_loop buf (s + 1) end' (res + (if buf ! s = LF then 1 else 0))
      else Some res)"

definition countLines :: "bytes \<Rightarrow> nat \<Rightarrow> nat \<Rightarrow> 32 word option" where
  "countLines buf begin end' = countLines_loop buf begin end' 0"

declare findLineEnd.simps [code]
declare countLines_loop.simps [code]

text \<open>
  \<^verbatim>\<open>processMatch\<close> formats one output line from the path, the line number, the column
  and the text of the matched line. A call is recorded with the numbers it is given
  and with the text as its position \<open>(lbeg - range)\<close> in the data and its length;
  \<open>m_match\<close> is the match of that iteration, as position in the buffer and size.
\<close>

record MatchReport =
  m_match :: "nat \<times> nat"
  m_line :: "32 word"
  m_column :: "32 word"
  m_text :: "nat \<times> nat"

text \<open>
  The loop of \<^verbatim>\<open>processFile\<close>, with \<open>begin\<close> as index and the reports so far. A match
  that does not lie in the range it was searched in makes the pointer arithmetic that
  follows undefined; that is the first \<open>None\<close>.
\<close>

partial_function (option) processFile_loop ::
  "Regex \<Rightarrow> bytes \<Rightarrow> nat \<Rightarrow> nat \<Rightarrow> 32 word \<Rightarrow> MatchReport list \<Rightarrow> MatchReport list option" where
  "processFile_loop re range' end' begin line out =
     (case rangeSearch re (take (end' - begin) (drop begin range')) of
        None \<Rightarrow> Some out
      | Some (p, n) \<Rightarrow>
          if \<not> p + n \<le> end' - begin then None
          else
            (case countLines range' begin (begin + p) of
               None \<Rightarrow> None
             | Some c \<Rightarrow>
                 (case findLineEnd range' (begin + p + n) end' of
                    None \<Rightarrow> None
                  | Some lend \<Rightarrow>
                      (let line' = line + (1 + c);
                           lbeg = findLineStart range' begin (begin + p);
                           out' = out @ [\<lparr>m_match = (begin + p, n), m_line = line',
                                          m_column = of_nat ((begin + p - lbeg) + 1),
                                          m_text = (lbeg, lend - lbeg)\<rparr>]
                       in if lend = end' then Some out'
                          else processFile_loop re range' end' (lend + 1) line' out'))))"

declare processFile_loop.simps [code]

definition processFile :: "Regex \<Rightarrow> bytes \<Rightarrow> 32 word \<Rightarrow> MatchReport list option" where
  "processFile re data startLine' =
     processFile_loop re (rangePrepare re data) (length data) 0 startLine' []"

text \<open>
  What the claim about line and column numbers speaks of: the number of line feeds in
  a stretch of bytes, and the position at which the line enclosing a position starts.
\<close>

definition countLF :: "bytes \<Rightarrow> nat" where
  "countLF xs = length (filter (\<lambda>c. c = LF) xs)"

definition lineStartOf :: "bytes \<Rightarrow> nat \<Rightarrow> nat" where
  "lineStartOf data pos = pos - length (takeWhile (\<lambda>c. c \<noteq> LF) (rev (take pos data)))"

text \<open>
  The contract of the engine that \<^verbatim>\<open>processFile\<close> relies on: the searched buffer has
  the length of the data and line feeds at the same positions (the code maps positions
  back with \<^verbatim>\<open>(lbeg - range) + data\<close>), and a match lies in the range searched and
  within one line.
\<close>

definition Regex_contract :: "Regex \<Rightarrow> bool" where
  "Regex_contract re \<longleftrightarrow>
     (\<forall>d. length (rangePrepare re d) = length d \<and>
          (\<forall>i < length d. (rangePrepare re d ! i = LF) = (d ! i = LF))) \<and>
     (\<forall>r p n. rangeSearch re r = Some (p, n) \<longrightarrow>
          p + n \<le> length r \<and> LF \<notin> set (take n (drop p r)))"

text \<open>
  What the claim says of one report, given the data of the record and its start line:
  the line is the start line plus 1 plus the line feeds before the match, the column is
  the 1-based offset of the match from the start of its line. Both numbers are 32-bit
  unsigned integers in the code, and the equations are between such.
\<close>

definition report_ok :: "bytes \<Rightarrow> 32 word \<Rightarrow> MatchReport \<Rightarrow> bool" where
  "report_ok data startLine' r \<longleftrightarrow>
     m_line r = startLine' + 1 + of_nat (countLF (take (fst (m_match r)) data)) \<and>
     m_column r = of_nat (fst (m_match r) - lineStartOf data (fst (m_match r))) + 1"

text \<open>
  Which matches are reported. \<open>lineEndOf\<close> is the position of the first line feed at or
  after a position (the length of the buffer when there is none). A list of matches,
  each with its position in the buffer and its size, is the list of first matches per
  line from \<open>b\<close> on when its head is what the engine returns for the buffer from \<open>b\<close>
  to its end and the others are the same from the start of the line after the one the
  head ends in; the list ends where the engine returns nothing or no line is left.
\<close>

definition lineEndOf :: "bytes \<Rightarrow> nat \<Rightarrow> nat" where
  "lineEndOf buf pos = pos + length (takeWhile (\<lambda>c. c \<noteq> LF) (drop pos buf))"

fun first_per_line :: "Regex \<Rightarrow> bytes \<Rightarrow> nat \<Rightarrow> (nat \<times> nat) list \<Rightarrow> bool" where
  "first_per_line re buf b [] = (rangeSearch re (drop b buf) = None)"
| "first_per_line re buf b ((q, n) # ms) =
     (b \<le> q \<and> rangeSearch re (drop b buf) = Some (q - b, n) \<and>
      (if LF \<in> set (drop (q + n) buf)
       then first_per_line re buf (lineEndOf buf (q + n) + 1) ms
       else ms = []))"

text \<open>
  An engine to run the scan on: it searches the data as they are, for the first
  occurrence of one byte.
\<close>

definition Regex_byte :: "char \<Rightarrow> Regex" where
  "Regex_byte c =
     \<lparr>rangePrepare = (\<lambda>d. d),
      rangeSearch = (\<lambda>r. if c \<in> set r
                          then Some (length (takeWhile (\<lambda>x. x \<noteq> c) r), 1) else None)\<rparr>"

text \<open>
  An engine outside the contract: it matches the first two bytes of a range, whatever
  they are, so a match may end in a line feed.
\<close>

definition Regex_pair :: Regex where
  "Regex_pair =
     \<lparr>rangePrepare = (\<lambda>d. d),
      rangeSearch = (\<lambda>r. if 2 \<le> length r then Some (0, 2) else None)\<rparr>"

section \<open>search.cpp: scanning one chunk\<close>

text \<open>
  A line of output is the path and the report \<^verbatim>\<open>processMatch\<close> formats. The
  uncompressed chunk is the buffer \<^verbatim>\<open>prepareChunkData\<close> lays out (\<^verbatim>\<open>ChunkFileHeader\<close>
  of the reader is the \<^verbatim>\<open>DataChunkFileHeader\<close> of the builder); a name or the contents
  of a file are read at their offset in the buffer, behind the headers. A header count
  beyond the headers present, or an offset into the headers, reads what the model does
  not hold and is \<open>None\<close>.
\<close>

type_synonym OutputLine = "bytes \<times> MatchReport"

definition ChunkData_slice :: "ChunkData \<Rightarrow> nat \<Rightarrow> nat \<Rightarrow> bytes option" where
  "ChunkData_slice d off len =
     (if 40 * length (headers d) \<le> off \<and>
         off + len \<le> 40 * length (headers d) + length (nameBytes d @ dataBytes d)
      then Some (take len (drop (off - 40 * length (headers d)) (nameBytes d @ dataBytes d)))
      else None)"

fun processChunk_files :: "Regex \<Rightarrow> ChunkData \<Rightarrow> DataChunkFileHeader list \<Rightarrow> OutputLine list option" where
  "processChunk_files re d [] = Some []"
| "processChunk_files re d (f # fs) =
     (case ChunkData_slice d (unat (nameOffset f)) (unat (nameLength f)) of
        None \<Rightarrow> None
      | Some path \<Rightarrow>
          (case ChunkData_slice d (unat (dataOffset f)) (unat (dataSize f)) of
             None \<Rightarrow> None
           | Some data \<Rightarrow>
               (case processFile re data (h_startLine f) of
                  None \<Rightarrow> None
                | Some reports \<Rightarrow>
                    (case processChunk_files re d fs of
                       None \<Rightarrow> None
                     | Some rest \<Rightarrow> Some (map (Pair path) reports @ rest)))))"

section \<open>The ordered emitter\<close>

text \<open>
  Modelled from the spec: \<^verbatim>\<open>orderedoutput.hpp\<close> and its implementation are not among
  the sources. Section 4.5 of the spec describes the emitter: producers call
  \<^verbatim>\<open>begin(i)\<close> for a private sink, append text to it and call \<^verbatim>\<open>end(sink)\<close>; the
  emitter releases sinks to the terminal strictly in ascending \<open>i\<close>, holding a finished
  sink back until all before it are released, with a cursor for the next index to
  release (section 9). The state is that cursor, the finished sinks held back, and what
  has been written to the terminal.
\<close>

record OrderedOutput =
  current :: "32 word"
  held :: "(32 word \<times> OutputLine list) list"
  written :: "OutputLine list"

definition OrderedOutput_new :: OrderedOutput where
  "OrderedOutput_new = \<lparr>current = 0, held = [], written = []\<rparr>"

text \<open>Releasing: while the sink at the cursor is held, write it and advance.\<close>

function OrderedOutput_release :: "OrderedOutput \<Rightarrow> OrderedOutput" where
  "OrderedOutput_release st =
     (case map_of (held st) (current st) of
        None \<Rightarrow> st
      | Some lines \<Rightarrow>
          OrderedOutput_release
            \<lparr>current = current st + 1,
             held = filter (\<lambda>e. fst e \<noteq> current st) (held st),
             written = written st @ lines\<rparr>)"
  by pat_completeness auto
termination
proof (relation "measure (\<lambda>st. length (held st))")
  show "wf (measure (\<lambda>st. length (held st)))" by simp
next
  fix st :: OrderedOutput and lines
  assume "map_of (held st) (current st) = Some lines"
  then have "(current st, lines) \<in> set (held st)" by (rule map_of_SomeD)
  then have "length (filter (\<lambda>e. fst e \<noteq> current st) (held st)) < length (held st)"
    by (intro length_filter_less [of "(current st, lines)"]) simp_all
  then show "(\<lparr>current = current st + 1,
             held = filter (\<lambda>e. fst e \<noteq> current st) (held st),
             written = written st @ lines\<rparr>, st) \<in> measure (\<lambda>st. length (held st))"
    by simp
qed

declare OrderedOutput_release.simps [simp del]

text \<open>\<^verbatim>\<open>end(sink)\<close>: the finished sink is handed over and what can be released is.\<close>

definition OrderedOutput_end :: "32 word \<times> OutputLine list \<Rightarrow> OrderedOutput \<Rightarrow> OrderedOutput" where
  "OrderedOutput_end sink st = OrderedOutput_release (st\<lparr>held := held st @ [sink]\<rparr>)"

section \<open>search.cpp: chunks, workers and the order of output\<close>

text \<open>
  \<^verbatim>\<open>processChunk\<close> begins the sink of its chunk index, scans the first \<open>fileCount\<close>
  file records into it and ends it.
\<close>

definition processChunk ::
  "Regex \<Rightarrow> 32 word \<Rightarrow> ChunkData \<Rightarrow> nat \<Rightarrow> OrderedOutput \<Rightarrow> OrderedOutput option" where
  "processChunk re chunkIndex d fileCount' st =
     (if fileCount' \<le> length (headers d) then
        (case processChunk_files re d (take fileCount' (headers d)) of
           None \<Rightarrow> None
         | Some lines \<Rightarrow> Some (OrderedOutput_end (chunkIndex, lines) st))
      else None)"

text \<open>
  The loop of \<^verbatim>\<open>searchProject\<close> reads chunk after chunk and pushes one job per chunk,
  with a chunk index that starts at 0 and is incremented after each push. A chunk as
  read is its header's file count and its buffer as \<^verbatim>\<open>LZ4_uncompress\<close> restores it.
\<close>

fun searchProject_push :: "32 word \<Rightarrow> (32 word \<times> ChunkData) list \<Rightarrow> (32 word \<times> 32 word \<times> ChunkData) list" where
  "searchProject_push chunkIndex [] = []"
| "searchProject_push chunkIndex ((fileCount', d) # chunks) =
     (chunkIndex, fileCount', d) # searchProject_push (chunkIndex + 1) chunks"

text \<open>
  The work queue runs the jobs on its workers in an order of its own. A run is given by
  the order in which the jobs reach the end of \<^verbatim>\<open>processChunk\<close>, as positions in the
  list of jobs; a position that names no job is skipped.
\<close>

fun runJobs :: "Regex \<Rightarrow> (32 word \<times> 32 word \<times> ChunkData) list \<Rightarrow> nat list \<Rightarrow> OrderedOutput \<Rightarrow> OrderedOutput option" where
  "runJobs re jobs [] st = Some st"
| "runJobs re jobs (k # order) st =
     (if k < length jobs then
        (case jobs ! k of
           (chunkIndex, fileCount', d) \<Rightarrow>
             (case processChunk re chunkIndex d (unat fileCount') st of
                None \<Rightarrow> None
              | Some st' \<Rightarrow> runJobs re jobs order st'))
      else runJobs re jobs order st)"

definition searchProject :: "Regex \<Rightarrow> (32 word \<times> ChunkData) list \<Rightarrow> nat list \<Rightarrow> OutputLine list option" where
  "searchProject re chunks order =
     map_option written (runJobs re (searchProject_push 0 chunks) order OrderedOutput_new)"

text \<open>The output of one chunk on its own, as a worker collects it in its sink.\<close>

definition chunkOutput :: "Regex \<Rightarrow> 32 word \<times> ChunkData \<Rightarrow> OutputLine list option" where
  "chunkOutput re c =
     (if unat (fst c) \<le> length (headers (snd c))
      then processChunk_files re (snd c) (take (unat (fst c)) (headers (snd c)))
      else None)"

section \<open>build.cpp: the size of the index and the number of hash iterations\<close>

definition getChunkIndexSize :: "nat \<Rightarrow> nat" where
  "getChunkIndexSize dataSize' =
     (let indexSize' = dataSize' div 50 in if indexSize' < 1024 then 0 else indexSize')"

text \<open>
  \<^verbatim>\<open>getIndexHashIterations\<close> computes in \<^verbatim>\<open>double\<close>. The values that occur are finite
  and not negative, and far from the ends of the exponent range, so a double is kept as a
  mantissa and a binary exponent, \<open>(m, e)\<close> for \<open>m \<cdot> 2\<^sup>e\<close>, and each operation is the
  exact result rounded to 53 significant bits, to nearest with ties to even (IEEE 754
  binary64, one rounding per operation). \<open>round_to_double num den e\<close> rounds
  \<open>num / den \<cdot> 2\<^sup>e\<close>.
\<close>

type_synonym double = "nat \<times> int"

fun bit_length :: "nat \<Rightarrow> nat" where
  "bit_length n = (if n = 0 then 0 else Suc (bit_length (n div 2)))"

declare bit_length.simps [simp del]

definition round_half_even :: "nat \<Rightarrow> nat \<Rightarrow> nat" where
  "round_half_even num den =
     (let q = num div den; r = num mod den
      in if den < 2 * r \<or> (2 * r = den \<and> odd q) then q + 1 else q)"

definition scaled_round :: "nat \<Rightarrow> nat \<Rightarrow> int \<Rightarrow> nat" where
  "scaled_round num den s =
     (if 0 \<le> s then round_half_even num (den * 2 ^ nat s)
      else round_half_even (num * 2 ^ nat (- s)) den)"

definition scaled_floor :: "nat \<Rightarrow> nat \<Rightarrow> int \<Rightarrow> nat" where
  "scaled_floor num den s =
     (if 0 \<le> s then num div (den * 2 ^ nat s) else (num * 2 ^ nat (- s)) div den)"

definition round_to_double :: "nat \<Rightarrow> nat \<Rightarrow> int \<Rightarrow> double" where
  "round_to_double num den e =
     (if num = 0 then (0, 0)
      else
        (let s0 = int (bit_length num) - int (bit_length den) - 53;
             s = (if 2 ^ 53 \<le> scaled_floor num den s0 then s0 + 1 else s0)
         in (scaled_round num den s, s + e)))"

definition double_of_nat :: "nat \<Rightarrow> double" where
  "double_of_nat n = round_to_double n 1 0"

definition double_mul :: "double \<Rightarrow> double \<Rightarrow> double" where
  "double_mul x y = round_to_double (fst x * fst y) 1 (snd x + snd y)"

definition double_div :: "double \<Rightarrow> double \<Rightarrow> double" where
  "double_div x y = round_to_double (fst x) (fst y) (snd x - snd y)"

definition double_less :: "double \<Rightarrow> double \<Rightarrow> bool" where
  "double_less x y =
     (let e = min (snd x) (snd y)
      in fst x * 2 ^ nat (snd x - e) < fst y * 2 ^ nat (snd y - e))"

text \<open>The conversion to \<^verbatim>\<open>unsigned int\<close> drops the fraction.\<close>

definition double_trunc :: "double \<Rightarrow> nat" where
  "double_trunc x = scaled_floor (fst x) 1 (- snd x)"

text \<open>The literal \<^verbatim>\<open>0.693147181\<close>, as the compiler converts it.\<close>

definition ln2_literal :: double where
  "ln2_literal = round_to_double 693147181 1000000000 0"

definition getIndexHashIterations :: "32 word \<Rightarrow> 32 word \<Rightarrow> 32 word" where
  "getIndexHashIterations indexSize' itemCount =
     (let m = indexSize' * 8;
          n = itemCount;
          k = (if n = 0 then double_of_nat 1
               else double_div (double_mul ln2_literal (double_of_nat (unat m)))
                      (double_of_nat (unat n)))
      in if double_less k (double_of_nat 1) then 1
         else if double_less (double_of_nat 16) k then 16
         else of_nat (double_trunc k))"

text \<open>
  The number a double stands for, and the hash count as the spec words it:
  \<open>round(ln 2 \<cdot> m / n)\<close> clamped to \<open>[1, 16]\<close>, and 1 for \<open>n = 0\<close>.
\<close>

definition double_val :: "double \<Rightarrow> real" where
  "double_val x = real (fst x) * 2 powi snd x"

definition hashIterations_spec :: "nat \<Rightarrow> nat \<Rightarrow> int" where
  "hashIterations_spec indexSize' n =
     (if n = 0 then 1
      else max 1 (min 16 (round (ln 2 * real (indexSize' * 8) / real n))))"

section \<open>Invariants of the pending queue\<close>

text \<open>
  The queue is in order when every pending file is well formed and \<open>pendingSize\<close> is the
  number of bytes pending. \<open>File_prefix\<close> and \<open>File_rest\<close> are the two files
  \<^verbatim>\<open>splitPrefix\<close> makes of one; \<open>chunkFiles\<close> lists the file records of the chunks a
  builder has written.
\<close>

definition queuedBytes :: "File list \<Rightarrow> nat" where
  "queuedBytes fs = sum_list (map (\<lambda>f. count (contents f)) fs)"

definition queue_ok :: "BuilderImpl \<Rightarrow> bool" where
  "queue_ok s \<longleftrightarrow>
     (\<forall>f \<in> set (pendingFiles s). Blob_ok (contents f)) \<and>
     pendingSize s = queuedBytes (pendingFiles s)"

definition File_prefix :: "File \<Rightarrow> nat \<Rightarrow> File" where
  "File_prefix f k = f\<lparr>contents := (contents f)\<lparr>count := k\<rparr>\<rparr>"

definition File_rest :: "File \<Rightarrow> nat \<Rightarrow> 32 word \<Rightarrow> File" where
  "File_rest f k l =
     f\<lparr>contents := (contents f)\<lparr>offset := offset (contents f) + k,
                                  count := count (contents f) - k\<rparr>,
       startLine := startLine f + l\<rparr>"

fun chunkFiles :: "ChunkRecord list \<Rightarrow> File list" where
  "chunkFiles [] = []"
| "chunkFiles (Built chunk # rs) = files chunk @ chunkFiles rs"
| "chunkFiles (Prebuilt header index payload # rs) = chunkFiles rs"

text \<open>
  Three stages of one file \<open>tgt\<close> on its way through the builder: no record carries its
  name; it waits in the queue, whole and alone under its name; it has been written, whole
  and alone in a chunk, and every other record under its name, pending or written, has
  no bytes.
\<close>

definition no_record :: "string \<Rightarrow> BuilderImpl \<Rightarrow> bool" where
  "no_record p s \<longleftrightarrow>
     (\<forall>f \<in> set (pendingFiles s) \<union> set (chunkFiles (outData s)). name f \<noteq> p)"

definition queued_whole :: "File \<Rightarrow> BuilderImpl \<Rightarrow> bool" where
  "queued_whole tgt s \<longleftrightarrow>
     (\<exists>xs ys. pendingFiles s = xs @ tgt # ys \<and>
        (\<forall>f \<in> set xs \<union> set ys. name f \<noteq> name tgt)) \<and>
     (\<forall>f \<in> set (chunkFiles (outData s)). name f \<noteq> name tgt)"

definition written_once :: "File \<Rightarrow> BuilderImpl \<Rightarrow> bool" where
  "written_once tgt s \<longleftrightarrow>
     (\<exists>before after.
        outData s = before @ Built \<lparr>files = [tgt], totalSize = count (contents tgt)\<rparr> # after \<and>
        (\<forall>f \<in> set (chunkFiles (before @ after)).
           name f = name tgt \<longrightarrow> count (contents f) = 0)) \<and>
     (\<forall>f \<in> set (pendingFiles s). name f = name tgt \<longrightarrow> count (contents f) = 0)"

text \<open>
  A long line is a well-formed file without a line feed that is longer than the chunk
  size. It is placed when it waits whole in the queue or has been written whole. A step
  from \<open>s\<close> to \<open>s'\<close> keeps the queue in order, introduces no file name, and keeps
  each stage of \<open>tgt\<close>; \<open>all_built\<close> says that every chunk of the stream was built by
  the builder itself, none handed in through \<^verbatim>\<open>appendChunk\<close>.
\<close>

definition long_line :: "nat \<Rightarrow> File \<Rightarrow> bool" where
  "long_line C tgt \<longleftrightarrow>
     Blob_ok (contents tgt) \<and> LF \<notin> set (Blob_bytes (contents tgt)) \<and> C < count (contents tgt)"

definition placed :: "File \<Rightarrow> BuilderImpl \<Rightarrow> bool" where
  "placed tgt s \<longleftrightarrow> queued_whole tgt s \<or> written_once tgt s"

definition all_built :: "BuilderImpl \<Rightarrow> bool" where
  "all_built s \<longleftrightarrow> (\<forall>r \<in> set (outData s). \<exists>chunk. r = Built chunk)"

definition keeps :: "File \<Rightarrow> BuilderImpl \<Rightarrow> BuilderImpl \<Rightarrow> bool" where
  "keeps tgt s s' \<longleftrightarrow>
     queue_ok s' \<and>
     name ` set (pendingFiles s') \<subseteq> name ` set (pendingFiles s) \<and>
     (no_record (name tgt) s \<longrightarrow> no_record (name tgt) s') \<and>
     (placed tgt s \<longrightarrow> placed tgt s') \<and>
     (all_built s \<longrightarrow> all_built s')"

section \<open>Properties of end-of-line normalisation\<close>

text \<open>
  The invariant of the in-place loop: the write index never passes the read index, so
  the unread part of the buffer is still the input, and the written part is the
  normalisation of what has been read.
\<close>

lemma normalizeEOL_loop_inv:
  "result \<le> i \<Longrightarrow> i \<le> sz \<Longrightarrow> sz = length data \<Longrightarrow>
   normalizeEOL_loop data sz i result = (d', n) \<Longrightarrow>
   length d' = length data \<and> n \<le> length data \<and> take n d' = take result data @ eol_spec (drop i data)"
proof (induction data sz i result arbitrary: d' n rule: normalizeEOL_loop.induct)
  case (1 data sz i result)
  show ?case
  proof (cases "i < sz")
    case False
    with "1.prems" show ?thesis by (subst (asm) normalizeEOL_loop.simps) auto
  next
    case True
    note lt = True
    then obtain x rest where dr: "drop i data = x # rest" and x: "x = data ! i" and rest: "rest = drop (Suc i) data"
      using "1.prems"(3) by (metis Cons_nth_drop_Suc)
    show ?thesis
    proof (cases "data ! i = CR")
      case False
      let ?d = "data[result := data ! i]"
      have run: "normalizeEOL_loop ?d sz (i + 1) (result + 1) = (d', n)"
        using "1.prems"(4) lt False by (subst (asm) normalizeEOL_loop.simps) simp
      have ih: "length d' = length ?d \<and> n \<le> length ?d \<and> take n d' = take (result + 1) ?d @ eol_spec (drop (i + 1) ?d)"
        using "1.IH"(3)[OF lt False _ _ _ run] "1.prems" lt by simp
      have a: "take (result + 1) ?d = take result data @ [data ! i]"
        using "1.prems" lt by (simp add: take_Suc_conv_app_nth)
      have b: "drop (i + 1) ?d = rest"
        using "1.prems" rest by simp
      have c: "eol_spec (x # rest) = x # eol_spec rest"
        using False x by (cases rest) auto
      show ?thesis using ih a b c dr x by simp
    next
      case True
      let ?d = "data[result := LF]"
      have a: "take (result + 1) ?d = take result data @ [LF]"
        using "1.prems" lt by (simp add: take_Suc_conv_app_nth)
      show ?thesis
      proof (cases "i + 1 < sz \<and> ?d ! (i + 1) = LF")
        case False
        have run: "normalizeEOL_loop ?d sz (i + 1) (result + 1) = (d', n)"
          using "1.prems"(4) lt True False by (subst (asm) normalizeEOL_loop.simps) (auto simp: Let_def split: if_splits)
        have ih: "length d' = length ?d \<and> n \<le> length ?d \<and> take n d' = take (result + 1) ?d @ eol_spec (drop (i + 1) ?d)"
          using "1.IH"(2)[OF lt True refl False _ _ _ run] "1.prems" lt by simp
        have b: "drop (i + 1) ?d = rest"
          using "1.prems" rest by simp
        have "rest = [] \<or> hd rest \<noteq> LF"
        proof (cases "i + 1 < sz")
          case False
          then show ?thesis using rest "1.prems" by simp
        next
          case T: True
          then have "?d ! (i + 1) \<noteq> LF" using False by simp
          moreover have "?d ! (i + 1) = data ! (i + 1)" using "1.prems" by simp
          moreover have "hd rest = data ! (i + 1)" using rest T "1.prems" by (simp add: hd_drop_conv_nth)
          ultimately show ?thesis by simp
        qed
        then have c: "eol_spec (x # rest) = LF # eol_spec rest"
          using True x by (cases rest) auto
        show ?thesis using ih a b c dr by simp
      next
        case T2: True
        have run: "normalizeEOL_loop ?d sz (i + 2) (result + 1) = (d', n)"
          using "1.prems"(4) lt True T2 by (subst (asm) normalizeEOL_loop.simps) (auto simp: Let_def split: if_splits)
        have ih: "length d' = length ?d \<and> n \<le> length ?d \<and> take n d' = take (result + 1) ?d @ eol_spec (drop (i + 2) ?d)"
          using "1.IH"(1)[OF lt True refl T2 _ _ _ run] "1.prems" lt T2 by simp
        have b: "drop (i + 2) ?d = drop (i + 2) data"
          using "1.prems" by simp
        have "?d ! (i + 1) = data ! (i + 1)" using "1.prems" by simp
        then have "data ! (i + 1) = LF" using T2 by simp
        then have "rest = LF # drop (i + 2) data"
          using rest T2 "1.prems" by (metis Cons_nth_drop_Suc Suc_eq_plus1 add_2_eq_Suc')
        then have c: "eol_spec (x # rest) = LF # eol_spec (drop (i + 2) data)"
          using True x by simp
        show ?thesis using ih a b c dr by simp
      qed
    qed
  qed
qed

lemma eol_spec_no_CR: "CR \<notin> set (eol_spec xs)"
  by (induction xs rule: eol_spec.induct) auto

lemma eol_spec_other_bytes:
  "filter (\<lambda>c. c \<noteq> CR \<and> c \<noteq> LF) (eol_spec xs) = filter (\<lambda>c. c \<noteq> CR \<and> c \<noteq> LF) xs"
  by (induction xs rule: eol_spec.induct) auto

text \<open>
  C5. For every input buffer, \<^verbatim>\<open>normalizeEOL\<close> leaves in the first \<open>n\<close> bytes of the
  buffer, \<open>n\<close> being its result, the input with each \<^verbatim>\<open>\r\n\<close> replaced by one
  \<^verbatim>\<open>\n\<close>, each remaining \<^verbatim>\<open>\r\<close> replaced by \<^verbatim>\<open>\n\<close> and every other byte kept, in
  order; the bytes other than \<^verbatim>\<open>\r\<close> and \<^verbatim>\<open>\n\<close> are the same before and after, and
  \<^verbatim>\<open>readFile\<close> returns exactly that buffer.
\<close>

theorem normalizeEOL_refines_eol_spec:
  "(case normalizeEOL data (length data) of
      (d', n) \<Rightarrow> n \<le> length data \<and> length d' = length data \<and> take n d' = eol_spec data \<and>
        filter (\<lambda>c. c \<noteq> CR \<and> c \<noteq> LF) (take n d') = filter (\<lambda>c. c \<noteq> CR \<and> c \<noteq> LF) data) \<and>
   readFile data = Some (eol_spec data)"
proof -
  obtain d' n where r: "normalizeEOL data (length data) = (d', n)"
    by (cases "normalizeEOL data (length data)")
  then have "normalizeEOL_loop data (length data) 0 0 = (d', n)"
    by (simp add: normalizeEOL_def)
  from normalizeEOL_loop_inv [OF _ _ _ this]
  have inv: "length d' = length data" "n \<le> length data" "take n d' = eol_spec data"
    by simp_all
  have "readFile data = Some (eol_spec data)"
    using r inv by (cases data) (simp_all add: readFile_def)
  then show ?thesis
    using r inv by (simp add: eol_spec_other_bytes)
qed

section \<open>Properties of \<^verbatim>\<open>appendChunk\<close>\<close>

text \<open>
  Growth flushing returns only through the exit of its loop, so the pending size is
  below twice the chunk size whenever it returns.
\<close>

lemma flushIfNeeded_post:
  assumes "flushIfNeeded C s0 = Some s"
  shows "pendingSize s < C * 2"
proof (rule flushIfNeeded.raw_induct [OF _ assms, where P = "\<lambda>C s0 s. pendingSize s < C * 2"])
  fix f C s0 s
  assume ih: "\<And>C s0 s. f C s0 = Some s \<Longrightarrow> pendingSize s < C * 2"
    and step: "(if C * 2 \<le> pendingSize s0 then Option.bind (flushChunk C s0) (f C) else Some s0) = Some s"
  show "pendingSize s < C * 2"
  proof (cases "C * 2 \<le> pendingSize s0")
    case True
    with step obtain s1 where "f C s1 = Some s"
      by (auto simp: Option.bind_eq_Some_conv)
    then show ?thesis by (rule ih)
  next
    case False
    with step show ?thesis by simp
  qed
qed

lemma flushIfNeeded_below: "pendingSize s < C * 2 \<Longrightarrow> flushIfNeeded C s = Some s"
  by (simp add: flushIfNeeded.simps)

text \<open>
  C7. Let \<open>s\<close> be the builder as growth flushing leaves it. If its pending size is
  strictly between 0 and three quarters of the chunk size, \<^verbatim>\<open>appendChunk\<close> returns
  \<^verbatim>\<open>false\<close> and the builder is \<open>s\<close> itself: nothing more is written, neither the
  pending data nor the caller's chunk. The code compares with
  \<^verbatim>\<open>kChunkSize * 3 / 2 / 2\<close> in integer arithmetic, which is three quarters of the
  chunk size when that is a multiple of 4, as 512 KiB is.
\<close>

theorem appendChunk_refuses_small_pending:
  assumes "flushIfNeeded C s0 = Some s"
    and "0 < pendingSize s"
    and "4 * pendingSize s < 3 * C"
    and "4 dvd C"
  shows "appendChunk C header compressedData index s0 = Some (False, s)"
proof -
  from assms(4) obtain q where q: "C = 4 * q" by (auto simp: dvd_def)
  have "C * 3 div 2 div 2 = 3 * q" using q by simp
  then have "pendingSize s < C * 3 div 2 div 2" using assms(3) q by simp
  then show ?thesis using assms(1,2) by (simp add: appendChunk_def Let_def)
qed

theorem appendChunk_refuses_small_pending_witness:
  "flushIfNeeded 524288
     \<lparr>pendingFiles = [File_new ''a.txt'' 0 ''abc'' 0 3], pendingSize = 3, outData = []\<rparr>
     = Some \<lparr>pendingFiles = [File_new ''a.txt'' 0 ''abc'' 0 3], pendingSize = 3, outData = []\<rparr> \<and>
   appendChunk 524288
     \<lparr>fileCount = 1, uncompressedSize = 44, compressedSize = 2, indexSize = 0,
      indexHashIterations = 0\<rparr> ''zz'' []
     \<lparr>pendingFiles = [File_new ''a.txt'' 0 ''abc'' 0 3], pendingSize = 3, outData = []\<rparr>
     = Some (False,
         \<lparr>pendingFiles = [File_new ''a.txt'' 0 ''abc'' 0 3], pendingSize = 3, outData = []\<rparr>)"
proof -
  let ?s = "\<lparr>pendingFiles = [File_new ''a.txt'' 0 ''abc'' 0 3], pendingSize = 3, outData = []\<rparr>"
  have f: "flushIfNeeded 524288 ?s = Some ?s"
    by (simp add: flushIfNeeded.simps)
  show ?thesis
    using f appendChunk_refuses_small_pending [OF f] by simp
qed

text \<open>
  C8, as stated, at a state entered with three times the chunk size pending (three
  files of 512 KiB each): growth flushing writes two chunks, the remaining 512 KiB pass
  both checks and are written, and \<^verbatim>\<open>appendChunk\<close> returns \<^verbatim>\<open>true\<close> after writing
  the caller's chunk.
\<close>

theorem appendChunk_large_pending_counterexample:
  "pendingSize
     \<lparr>pendingFiles = [File_new ''a'' 0 (replicate 524288 (CHR ''a'')) 0 524288,
                      File_new ''b'' 0 (replicate 524288 (CHR ''b'')) 0 524288,
                      File_new ''c'' 0 (replicate 524288 (CHR ''c'')) 0 524288],
      pendingSize = 1572864, outData = []\<rparr> > 2 * 524288 \<and>
   appendChunk 524288
     \<lparr>fileCount = 1, uncompressedSize = 44, compressedSize = 2, indexSize = 0,
      indexHashIterations = 0\<rparr> ''zz'' []
     \<lparr>pendingFiles = [File_new ''a'' 0 (replicate 524288 (CHR ''a'')) 0 524288,
                      File_new ''b'' 0 (replicate 524288 (CHR ''b'')) 0 524288,
                      File_new ''c'' 0 (replicate 524288 (CHR ''c'')) 0 524288],
      pendingSize = 1572864, outData = []\<rparr>
   = Some (True,
       \<lparr>pendingFiles = [], pendingSize = 0,
        outData =
          [Built \<lparr>files = [File_new ''a'' 0 (replicate 524288 (CHR ''a'')) 0 524288],
                  totalSize = 524288\<rparr>,
           Built \<lparr>files = [File_new ''b'' 0 (replicate 524288 (CHR ''b'')) 0 524288],
                  totalSize = 524288\<rparr>,
           Built \<lparr>files = [File_new ''c'' 0 (replicate 524288 (CHR ''c'')) 0 524288],
                  totalSize = 524288\<rparr>,
           Prebuilt \<lparr>fileCount = 1, uncompressedSize = 44, compressedSize = 2, indexSize = 0,
                     indexHashIterations = 0\<rparr> [] ''zz'']\<rparr>)"
  by (simp add: appendChunk_def flushIfNeeded.simps flushChunk_def Chunk_empty_def File_new_def
      Blob_of_def Blob_size_def Blob_data_def appendChunkFile_def flushChunk_chunk_def
      prepareChunkData_def getChunkNameTotalSize_def getChunkDataTotalSize_def
      appendChunk_write_def writeChunk_def Let_def)

text \<open>
  C8, amended. Whatever the pending size on entry, \<^verbatim>\<open>appendChunk\<close> runs growth
  flushing first, and that returns only with less than twice the chunk size pending;
  the test against twice the chunk size that follows never fires. \<^verbatim>\<open>appendChunk\<close>
  returns \<^verbatim>\<open>false\<close> exactly when what is then pending is more than 0 and less than
  \<^verbatim>\<open>kChunkSize * 3 / 2 / 2\<close>, and it leaves the builder as growth flushing left it.
\<close>

theorem appendChunk_false_iff_small_after_flush:
  assumes "flushIfNeeded C s0 = Some s"
  shows "pendingSize s < C * 2 \<and>
     (appendChunk C header compressedData index s0 = Some (False, s')
        \<longleftrightarrow> s' = s \<and> 0 < pendingSize s \<and> pendingSize s < C * 3 div 2 div 2)"
proof -
  have p: "pendingSize s < C * 2" using assms by (rule flushIfNeeded_post)
  have w: "\<And>t. appendChunk_write header compressedData index t \<noteq> Some (False, s')"
    by (simp add: appendChunk_write_def)
  show ?thesis
    using assms p w
    by (auto simp: appendChunk_def Let_def split: option.splits if_splits)
qed

theorem appendChunk_false_iff_small_after_flush_witness:
  "pendingSize
     \<lparr>pendingFiles = [File_new ''a'' 0 ''aaaaaaaaa'' 0 9, File_new ''c'' 0 ''cc'' 0 2],
      pendingSize = 11, outData = []\<rparr> > 2 * 4 \<and>
   flushIfNeeded 4
     \<lparr>pendingFiles = [File_new ''a'' 0 ''aaaaaaaaa'' 0 9, File_new ''c'' 0 ''cc'' 0 2],
      pendingSize = 11, outData = []\<rparr>
   = Some \<lparr>pendingFiles =
             [\<lparr>name = ''a'', contents = \<lparr>offset = 9, count = 0, storage = ''aaaaaaaaa''\<rparr>,
               startLine = 1, fileSize = 9, timeStamp = 0\<rparr>,
              File_new ''c'' 0 ''cc'' 0 2],
           pendingSize = 2,
           outData = [Built \<lparr>files = [File_new ''a'' 0 ''aaaaaaaaa'' 0 9], totalSize = 9\<rparr>]\<rparr> \<and>
   appendChunk 4
     \<lparr>fileCount = 1, uncompressedSize = 44, compressedSize = 2, indexSize = 0,
      indexHashIterations = 0\<rparr> ''zz'' []
     \<lparr>pendingFiles = [File_new ''a'' 0 ''aaaaaaaaa'' 0 9, File_new ''c'' 0 ''cc'' 0 2],
      pendingSize = 11, outData = []\<rparr>
   = Some (False,
       \<lparr>pendingFiles =
          [\<lparr>name = ''a'', contents = \<lparr>offset = 9, count = 0, storage = ''aaaaaaaaa''\<rparr>,
            startLine = 1, fileSize = 9, timeStamp = 0\<rparr>,
           File_new ''c'' 0 ''cc'' 0 2],
        pendingSize = 2,
        outData = [Built \<lparr>files = [File_new ''a'' 0 ''aaaaaaaaa'' 0 9], totalSize = 9\<rparr>]\<rparr>)"
proof -
  let ?init = "\<lparr>pendingFiles = [File_new ''a'' 0 ''aaaaaaaaa'' 0 9, File_new ''c'' 0 ''cc'' 0 2],
      pendingSize = 11, outData = []\<rparr>"
  let ?after = "\<lparr>pendingFiles =
             [\<lparr>name = ''a'', contents = \<lparr>offset = 9, count = 0, storage = ''aaaaaaaaa''\<rparr>,
               startLine = 1, fileSize = 9, timeStamp = 0\<rparr>,
              File_new ''c'' 0 ''cc'' 0 2],
           pendingSize = 2,
           outData = [Built \<lparr>files = [File_new ''a'' 0 ''aaaaaaaaa'' 0 9], totalSize = 9\<rparr>]\<rparr>"
  have f: "flushIfNeeded 4 ?init = Some ?after"
    by code_simp
  show ?thesis
    using f appendChunk_false_iff_small_after_flush [OF f, where s' = ?after] by simp
qed

text \<open>
  With nothing pending and an empty queue after growth flushing, \<^verbatim>\<open>appendChunk\<close>
  makes no size check, writes the caller's chunk and returns \<^verbatim>\<open>true\<close>.
\<close>

lemma appendChunk_empty_queue:
  assumes "flushIfNeeded C s0 = Some s" and "pendingSize s = 0" and "pendingFiles s = []"
  shows "appendChunk C header compressedData index s0 =
           Some (True, s\<lparr>outData := outData s @
                   [Prebuilt header (take (unat (indexSize header)) index)
                      (take (unat (compressedSize header)) compressedData)]\<rparr>)"
  using assms by (simp add: appendChunk_def appendChunk_write_def writeChunk_def)

text \<open>
  C10 at a queue that holds a file of no bytes. Appending an empty source file to a
  new builder queues a record of size 0; the pending size stays 0, so \<^verbatim>\<open>appendChunk\<close>
  skips the size checks and reaches
  \<^verbatim>\<open>assert(pendingSize == 0 && pendingFiles.empty())\<close> with a queue that is not
  empty: the assertion fails instead of the chunk being written.
\<close>

theorem appendChunk_empty_file_pending_fails_assertion:
  "appendFilePart 524288 ''empty.txt'' 0 [] 0 0 BuilderImpl_new
     = Some \<lparr>pendingFiles = [File_new ''empty.txt'' 0 [] 0 0], pendingSize = 0, outData = []\<rparr> \<and>
   appendChunk 524288 header compressedData index
     \<lparr>pendingFiles = [File_new ''empty.txt'' 0 [] 0 0], pendingSize = 0, outData = []\<rparr> = None"
  by (simp add: appendFilePart_def BuilderImpl_new_def flushIfNeeded.simps appendChunk_def
      appendChunk_write_def)

section \<open>Properties of the chunk layout\<close>

text \<open>
  Laying out a chunk of well-formed files passes every assertion; the data sizes and
  start lines in its headers are those of the files, and its contents are the bytes of
  their windows.
\<close>

lemma Blob_data_ok: "Blob_ok b \<Longrightarrow> Blob_data b = Some (drop (offset b) (storage b))"
  by (simp add: Blob_ok_def Blob_data_def)

lemma Blob_ok_Blob_of [simp]: "Blob_ok (Blob_of d)"
  by (simp add: Blob_ok_def Blob_of_def)

lemma Blob_bytes_Blob_of [simp]: "Blob_bytes (Blob_of d) = d"
  by (simp add: Blob_bytes_def Blob_of_def)

lemma fold_add_sum: "fold (\<lambda>f r. r + g f) fs (a::nat) = a + sum_list (map g fs)"
  by (induction fs arbitrary: a) auto

lemma prepareChunkData_loop_ok:
  "\<forall>f \<in> set fs. Blob_ok (contents f) \<Longrightarrow>
   \<exists>d'. prepareChunkData_loop fs no do d =
     Some (no + sum_list (map (\<lambda>f. length (name f)) fs),
           do + sum_list (map (\<lambda>f. Blob_size (contents f)) fs), d') \<and>
     map dataSize (headers d') = map dataSize (headers d) @ map (\<lambda>f. of_nat (Blob_size (contents f))) fs \<and>
     map h_startLine (headers d') = map h_startLine (headers d) @ map startLine fs \<and>
     dataBytes d' = dataBytes d @ concat (map (\<lambda>f. Blob_bytes (contents f)) fs)"
proof (induction fs arbitrary: no do d)
  case Nil
  then show ?case by simp
next
  case (Cons f fs)
  let ?d = "\<lparr>headers = headers d @
               [\<lparr>nameOffset = of_nat no, nameLength = of_nat (length (name f)),
                 dataOffset = of_nat do, dataSize = of_nat (Blob_size (contents f)),
                 h_startLine = startLine f, h_reserved = 0,
                 h_fileSize = fileSize f, h_timeStamp = timeStamp f\<rparr>],
             nameBytes = nameBytes d @ name f,
             dataBytes = dataBytes d @ take (Blob_size (contents f))
                (drop (offset (contents f)) (storage (contents f)))\<rparr>"
  have ok: "Blob_ok (contents f)" and oks: "\<forall>f \<in> set fs. Blob_ok (contents f)"
    using Cons.prems by simp_all
  from Cons.IH [OF oks, of "no + length (name f)" "do + Blob_size (contents f)" ?d]
  obtain d' where
    "prepareChunkData_loop fs (no + length (name f)) (do + Blob_size (contents f)) ?d =
       Some (no + length (name f) + sum_list (map (\<lambda>f. length (name f)) fs),
             do + Blob_size (contents f) + sum_list (map (\<lambda>f. Blob_size (contents f)) fs), d')"
    and "map dataSize (headers d') = map dataSize (headers ?d) @ map (\<lambda>f. of_nat (Blob_size (contents f))) fs"
    and "map h_startLine (headers d') = map h_startLine (headers ?d) @ map startLine fs"
    and "dataBytes d' = dataBytes ?d @ concat (map (\<lambda>f. Blob_bytes (contents f)) fs)"
    by blast
  then show ?case
    by (simp add: Blob_data_ok [OF ok] Blob_bytes_def Blob_size_def add.assoc)
qed

lemma prepareChunkData_ok:
  assumes "\<forall>f \<in> set (files chunk). Blob_ok (contents f)"
  shows "\<exists>d off. prepareChunkData chunk = Some (d, off) \<and>
     map dataSize (headers d) = map (\<lambda>f. of_nat (Blob_size (contents f))) (files chunk) \<and>
     map h_startLine (headers d) = map startLine (files chunk) \<and>
     dataBytes d = concat (map (\<lambda>f. Blob_bytes (contents f)) (files chunk))"
proof -
  from prepareChunkData_loop_ok [OF assms, of "40 * length (files chunk)"
      "40 * length (files chunk) + getChunkNameTotalSize chunk" "\<lparr>headers = [], nameBytes = [], dataBytes = []\<rparr>"]
  obtain d' where "prepareChunkData_loop (files chunk) (40 * length (files chunk))
      (40 * length (files chunk) + getChunkNameTotalSize chunk) \<lparr>headers = [], nameBytes = [], dataBytes = []\<rparr>
      = Some (40 * length (files chunk) + sum_list (map (\<lambda>f. length (name f)) (files chunk)),
           40 * length (files chunk) + getChunkNameTotalSize chunk + sum_list (map (\<lambda>f. Blob_size (contents f)) (files chunk)), d')"
    and "map dataSize (headers d') = map (\<lambda>f. of_nat (Blob_size (contents f))) (files chunk)"
    and "map h_startLine (headers d') = map startLine (files chunk)"
    and "dataBytes d' = concat (map (\<lambda>f. Blob_bytes (contents f)) (files chunk))"
    by auto
  then show ?thesis
    by (simp add: prepareChunkData_def Let_def getChunkNameTotalSize_def getChunkDataTotalSize_def fold_add_sum)
qed

lemma flushChunk_chunk_ok:
  assumes "\<forall>f \<in> set (files chunk). Blob_ok (contents f)"
  shows "flushChunk_chunk chunk s =
    Some (if files chunk = [] then s else s\<lparr>outData := outData s @ [Built chunk]\<rparr>)"
  using prepareChunkData_ok [OF assms] by (auto simp: flushChunk_chunk_def)

section \<open>A line longer than the requested chunk size\<close>

text \<open>
  Without a line feed in the scanned bytes \<^verbatim>\<open>skipByLines\<close> returns \<open>(0, 0)\<close> and
  \<^verbatim>\<open>skipOneLine\<close> runs to the end of the data. So a file without a line feed that does
  not fit goes whole into an empty chunk, and leaves a remainder of no bytes whose start
  line is one more.
\<close>

lemma skipByLines_loop_no_LF:
  "(\<And>j. i \<le> j \<Longrightarrow> j < n \<Longrightarrow> data ! j \<noteq> LF) \<Longrightarrow> skipByLines_loop data n i r = r"
proof (induction data n i r rule: skipByLines_loop.induct)
  case (1 data dataSize i result)
  show ?case
  proof (cases "i < dataSize")
    case True
    then have "data ! i \<noteq> LF" using "1.prems" by simp
    then have "skipByLines_loop data dataSize i result = skipByLines_loop data dataSize (i + 1) result"
      using True by (subst skipByLines_loop.simps) simp
    also have "\<dots> = result"
      using "1.IH" [OF True] "1.prems" \<open>data ! i \<noteq> LF\<close> by simp
    finally show ?thesis .
  next
    case False
    then show ?thesis by (subst skipByLines_loop.simps) simp
  qed
qed

lemma skipByLines_no_LF: "(\<And>j. j < n \<Longrightarrow> data ! j \<noteq> LF) \<Longrightarrow> skipByLines data n = (0, 0)"
  by (simp add: skipByLines_def skipByLines_loop_no_LF)

lemma skipOneLine_loop_no_LF:
  "(\<And>j. i \<le> j \<Longrightarrow> j < n \<Longrightarrow> data ! j \<noteq> LF) \<Longrightarrow> skipOneLine_loop data n i = n"
proof (induction data n i rule: skipOneLine_loop.induct)
  case (1 data dataSize i)
  show ?case
  proof (cases "i < dataSize")
    case True
    then have "data ! i \<noteq> LF" using "1.prems" by simp
    then have "skipOneLine_loop data dataSize i = skipOneLine_loop data dataSize (i + 1)"
      using True by (subst skipOneLine_loop.simps) simp
    also have "\<dots> = dataSize"
      using "1.IH" [OF True \<open>data ! i \<noteq> LF\<close>] "1.prems" by simp
    finally show ?thesis .
  next
    case False
    then show ?thesis by (subst skipOneLine_loop.simps) simp
  qed
qed

lemma skipOneLine_no_LF: "(\<And>j. j < n \<Longrightarrow> data ! j \<noteq> LF) \<Longrightarrow> skipOneLine data n = n"
  by (simp add: skipOneLine_def skipOneLine_loop_no_LF)

lemma Blob_bytes_nth:
  "Blob_ok b \<Longrightarrow> j < count b \<Longrightarrow> drop (offset b) (storage b) ! j = Blob_bytes b ! j"
  by (simp add: Blob_bytes_def Blob_ok_def)

lemma Blob_bytes_length: "Blob_ok b \<Longrightarrow> length (Blob_bytes b) = count b"
  by (simp add: Blob_bytes_def Blob_ok_def)

lemma no_LF_nth:
  assumes "Blob_ok b" "LF \<notin> set (Blob_bytes b)" "j < count b"
  shows "drop (offset b) (storage b) ! j \<noteq> LF"
  using assms by (metis Blob_bytes_nth Blob_bytes_length nth_mem)

lemma appendChunkFilePrefix_long_line:
  assumes ok: "Blob_ok (contents f)" and nl: "LF \<notin> set (Blob_bytes (contents f))"
    and r: "remaining < count (contents f)"
  shows "appendChunkFilePrefix Chunk_empty f remaining =
     Some (\<lparr>files = [f], totalSize = count (contents f)\<rparr>,
           f\<lparr>contents := (contents f)\<lparr>offset := offset (contents f) + count (contents f), count := 0\<rparr>,
             startLine := startLine f + 1\<rparr>)"
proof -
  let ?data = "drop (offset (contents f)) (storage (contents f))"
  have a: "skipByLines ?data remaining = (0, 0)"
    using no_LF_nth [OF ok nl] r by (intro skipByLines_no_LF) simp
  have b: "skipOneLine ?data (count (contents f)) = count (contents f)"
    using no_LF_nth [OF ok nl] by (intro skipOneLine_no_LF) simp
  show ?thesis
    using r by (simp add: appendChunkFilePrefix_def Blob_data_ok [OF ok] Blob_size_def a b
        Chunk_empty_def splitPrefix_def Let_def)
qed

lemma flushChunk_long_line:
  assumes q: "pendingFiles s = f # rest"
    and ok: "Blob_ok (contents f)" and nl: "LF \<notin> set (Blob_bytes (contents f))"
    and sz: "0 < sz" "sz < count (contents f)" and p: "count (contents f) \<le> pendingSize s"
  shows "flushChunk sz s =
     Some (s\<lparr>pendingFiles :=
               f\<lparr>contents := (contents f)\<lparr>offset := offset (contents f) + count (contents f),
                                           count := 0\<rparr>,
                 startLine := startLine f + 1\<rparr> # rest,
             pendingSize := pendingSize s - count (contents f),
             outData := outData s @ [Built \<lparr>files = [f], totalSize = count (contents f)\<rparr>]\<rparr>)"
proof -
  have l: "flushChunk_loop sz Chunk_empty (f # rest) =
      Some (\<lparr>files = [f], totalSize = count (contents f)\<rparr>,
           f\<lparr>contents := (contents f)\<lparr>offset := offset (contents f) + count (contents f), count := 0\<rparr>,
             startLine := startLine f + 1\<rparr> # rest)"
    using sz appendChunkFilePrefix_long_line [OF ok nl, of "sz"]
    by (simp add: Blob_size_def Chunk_empty_def)
  have w: "flushChunk_chunk \<lparr>files = [f], totalSize = count (contents f)\<rparr> t =
      Some (t\<lparr>outData := outData t @ [Built \<lparr>files = [f], totalSize = count (contents f)\<rparr>]\<rparr>)" for t
    using ok by (subst flushChunk_chunk_ok) simp_all
  show ?thesis
    using p by (simp add: flushChunk_def q l w del: flushChunk_loop.simps)
qed

lemma flush_zero: "pendingSize s = 0 \<Longrightarrow> flush C s = Some s"
  by (simp add: flush.simps)

lemma buildProject_single_long_line:
  assumes nl: "LF \<notin> set data" and len: "C < length data" and C: "0 < C"
  shows "buildProject C [(path, data, t, fsz)] =
     Some \<lparr>pendingFiles =
             [\<lparr>name = path, contents = \<lparr>offset = length data, count = 0, storage = data\<rparr>,
               startLine = 1, fileSize = fsz, timeStamp = t\<rparr>],
           pendingSize = 0,
           outData = [Built \<lparr>files = [File_new path 0 data t fsz], totalSize = length data\<rparr>]\<rparr>"
proof -
  let ?f = "File_new path 0 data t fsz"
  let ?s1 = "\<lparr>pendingFiles = [?f], pendingSize = length data, outData = []\<rparr>"
  let ?s2 = "\<lparr>pendingFiles =
             [\<lparr>name = path, contents = \<lparr>offset = length data, count = 0, storage = data\<rparr>,
               startLine = 1, fileSize = fsz, timeStamp = t\<rparr>],
           pendingSize = 0,
           outData = [Built \<lparr>files = [?f], totalSize = length data\<rparr>]\<rparr>"
  have c: "contents ?f = Blob_of data" by (simp add: File_new_def)
  have fc: "flushChunk C ?s1 = Some ?s2"
    using flushChunk_long_line [of ?s1 ?f "[]" C] nl len C
    by (simp add: c) (simp add: File_new_def Blob_of_def)
  have a: "appendFile C path data t fsz BuilderImpl_new = flushIfNeeded C ?s1"
    by (simp add: appendFile_def appendFilePart_def BuilderImpl_new_def)
  have z: "flush C ?s2 = Some ?s2" by (rule flush_zero) simp
  have n2: "flushIfNeeded C ?s2 = Some ?s2" using C by (intro flushIfNeeded_below) simp
  show ?thesis
  proof (cases "C * 2 \<le> length data")
    case True
    then have "flushIfNeeded C ?s1 = Some ?s2"
      by (subst flushIfNeeded.simps) (simp add: fc n2)
    then show ?thesis by (simp add: buildProject_def a z)
  next
    case False
    then have "flushIfNeeded C ?s1 = Some ?s1"
      by (intro flushIfNeeded_below) simp
    moreover have "flush C ?s1 = Some ?s2"
      using len C by (subst flush.simps) (auto simp add: fc z)
    ultimately show ?thesis by (simp add: buildProject_def a)
  qed
qed

section \<open>One file of 1 MiB without a line feed\<close>

lemma big_file_build:
  "buildProject 524288 [(''big.txt'', replicate 1048576 (CHR ''a''), 0, 1048576)] =
     Some \<lparr>pendingFiles =
             [\<lparr>name = ''big.txt'',
               contents = \<lparr>offset = 1048576, count = 0, storage = replicate 1048576 (CHR ''a'')\<rparr>,
               startLine = 1, fileSize = 1048576, timeStamp = 0\<rparr>],
           pendingSize = 0,
           outData = [Built \<lparr>files = [File_new ''big.txt'' 0 (replicate 1048576 (CHR ''a'')) 0 1048576],
                             totalSize = 1048576\<rparr>]\<rparr>"
  using buildProject_single_long_line
    [of "replicate 1048576 (CHR ''a'')" 524288 "''big.txt''" 0 1048576]
  by simp

lemma big_file_headers:
  "builtHeaders [Built \<lparr>files = [File_new ''big.txt'' 0 (replicate 1048576 (CHR ''a'')) 0 1048576],
                        totalSize = 1048576\<rparr>] =
     [[\<lparr>nameOffset = 40, nameLength = 7, dataOffset = 47, dataSize = 1048576,
        h_startLine = 0, h_reserved = 0, h_fileSize = 1048576, h_timeStamp = 0\<rparr>]]"
  by (simp add: prepareChunkData_def getChunkNameTotalSize_def getChunkDataTotalSize_def
      File_new_def Blob_of_def Blob_data_def Blob_size_def)

text \<open>
  C1, as stated: the store built from \<^verbatim>\<open>big.txt\<close> does not hold two chunks with one
  record of 524288 bytes each.
\<close>

theorem big_file_two_chunks_counterexample:
  "buildProject 524288 [(''big.txt'', replicate 1048576 (CHR ''a''), 0, 1048576)] \<noteq> None \<and>
   length (outData (the (buildProject 524288
      [(''big.txt'', replicate 1048576 (CHR ''a''), 0, 1048576)]))) \<noteq> 2 \<and>
   map (map dataSize) (builtHeaders (outData (the (buildProject 524288
      [(''big.txt'', replicate 1048576 (CHR ''a''), 0, 1048576)])))) \<noteq> [[524288], [524288]]"
  by (simp add: big_file_build big_file_headers del: builtHeaders.simps)

text \<open>
  C1, amended. With a chunk size of 512 KiB, the store built from the single file
  \<^verbatim>\<open>big.txt\<close> of 1 MiB of \<^verbatim>\<open>'a'\<close> holds exactly one chunk; its single file record has
  start line 0 and data size 1048576. The fallback for a line that cannot be split
  takes the line to its end (\<^verbatim>\<open>skipOneLine\<close>), not the first \<open>remainingSize\<close> bytes.
\<close>

theorem big_file_one_chunk:
  "\<exists>s. buildProject 524288 [(''big.txt'', replicate 1048576 (CHR ''a''), 0, 1048576)] = Some s \<and>
     outData s = [Built \<lparr>files = [File_new ''big.txt'' 0 (replicate 1048576 (CHR ''a'')) 0 1048576],
                         totalSize = 1048576\<rparr>] \<and>
     builtHeaders (outData s) =
       [[\<lparr>nameOffset = 40, nameLength = 7, dataOffset = 47, dataSize = 1048576,
          h_startLine = 0, h_reserved = 0, h_fileSize = 1048576, h_timeStamp = 0\<rparr>]]"
  by (simp add: big_file_build big_file_headers del: builtHeaders.simps)

section \<open>A queue that fits into the requested chunk size\<close>

text \<open>
  When all pending files together stay below the requested size, every one of them is
  moved whole and the queue is written as one chunk.
\<close>

lemma flushChunk_loop_all_fit:
  "totalSize chunk + sum_list (map (\<lambda>f. Blob_size (contents f)) pending) < sz \<Longrightarrow>
   flushChunk_loop sz chunk pending =
     Some (chunk\<lparr>totalSize := totalSize chunk + sum_list (map (\<lambda>f. Blob_size (contents f)) pending),
                 files := files chunk @ pending\<rparr>, [])"
proof (induction pending arbitrary: chunk)
  case Nil
  then show ?case by simp
next
  case (Cons f pending)
  have "totalSize chunk < sz" and "Blob_size (contents f) \<le> sz - totalSize chunk"
    using Cons.prems by simp_all
  then have "flushChunk_loop sz chunk (f # pending) = flushChunk_loop sz (appendChunkFile chunk f) pending"
    by (simp add: Let_def)
  also have "\<dots> = Some ((appendChunkFile chunk f)\<lparr>totalSize := totalSize (appendChunkFile chunk f) + sum_list (map (\<lambda>f. Blob_size (contents f)) pending),
                 files := files (appendChunkFile chunk f) @ pending\<rparr>, [])"
    using Cons.prems by (intro Cons.IH) (simp add: appendChunkFile_def)
  finally show ?case by (simp add: appendChunkFile_def add.assoc)
qed

lemma flushChunk_all_fit:
  assumes "sum_list (map (\<lambda>f. Blob_size (contents f)) (pendingFiles s)) < sz"
    and "\<forall>f \<in> set (pendingFiles s). Blob_ok (contents f)"
    and "pendingSize s = sum_list (map (\<lambda>f. Blob_size (contents f)) (pendingFiles s))"
    and "pendingFiles s \<noteq> []"
  shows "flushChunk sz s =
     Some (s\<lparr>pendingFiles := [], pendingSize := 0,
             outData := outData s @ [Built \<lparr>files = pendingFiles s, totalSize = pendingSize s\<rparr>]\<rparr>)"
proof -
  have l: "flushChunk_loop sz Chunk_empty (pendingFiles s) =
      Some (\<lparr>files = pendingFiles s, totalSize = pendingSize s\<rparr>, [])"
    using flushChunk_loop_all_fit [of Chunk_empty "pendingFiles s" sz] assms(1,3)
    by (simp add: Chunk_empty_def)
  have w: "flushChunk_chunk \<lparr>files = pendingFiles s, totalSize = pendingSize s\<rparr> t =
      Some (t\<lparr>outData := outData t @ [Built \<lparr>files = pendingFiles s, totalSize = pendingSize s\<rparr>]\<rparr>)" for t
    using assms(2,4) by (subst flushChunk_chunk_ok) simp_all
  show ?thesis
    by (simp add: flushChunk_def l w)
qed

section \<open>The remainder of a line that could not be split\<close>

text \<open>
  A file of 1 MiB without a line feed, followed by a file of two bytes, with a chunk size
  of 512 KiB. The first file is written whole; its remainder of no bytes waits in the
  queue with start line 1 and is written with the second file.
\<close>

lemma two_files_build:
  "buildProject 524288 [(''a.txt'', replicate 1048576 (CHR ''a''), 0, 1048576), (''b.txt'', (replicate 2 (CHR ''b'')), 0, 2)] =
     Some \<lparr>pendingFiles = [], pendingSize = 0,
           outData =
             [Built \<lparr>files = [File_new ''a.txt'' 0 (replicate 1048576 (CHR ''a'')) 0 1048576],
                     totalSize = 1048576\<rparr>,
              Built \<lparr>files =
                       [\<lparr>name = ''a.txt'',
                         contents = \<lparr>offset = 1048576, count = 0, storage = replicate 1048576 (CHR ''a'')\<rparr>,
                         startLine = 1, fileSize = 1048576, timeStamp = 0\<rparr>,
                        File_new ''b.txt'' 0 (replicate 2 (CHR ''b'')) 0 2],
                     totalSize = 2\<rparr>]\<rparr>"
proof -
  let ?a = "File_new ''a.txt'' 0 (replicate 1048576 (CHR ''a'')) 0 1048576"
  let ?r = "\<lparr>name = ''a.txt'',
             contents = \<lparr>offset = 1048576, count = 0, storage = replicate 1048576 (CHR ''a'')\<rparr>,
             startLine = 1, fileSize = 1048576, timeStamp = 0\<rparr>"
  let ?b = "File_new ''b.txt'' 0 (replicate 2 (CHR ''b'')) 0 2"
  let ?s1 = "\<lparr>pendingFiles = [?a], pendingSize = 1048576, outData = []\<rparr>"
  let ?s2 = "\<lparr>pendingFiles = [?r], pendingSize = 0,
              outData = [Built \<lparr>files = [?a], totalSize = 1048576\<rparr>]\<rparr>"
  let ?s3 = "\<lparr>pendingFiles = [?r, ?b], pendingSize = 2,
              outData = [Built \<lparr>files = [?a], totalSize = 1048576\<rparr>]\<rparr>"
  let ?s4 = "\<lparr>pendingFiles = [], pendingSize = 0,
              outData = [Built \<lparr>files = [?a], totalSize = 1048576\<rparr>,
                         Built \<lparr>files = [?r, ?b], totalSize = 2\<rparr>]\<rparr>"
  have fc: "flushChunk 524288 ?s1 = Some ?s2"
    using flushChunk_long_line [of ?s1 ?a "[]" 524288]
    by (simp add: File_new_def Blob_of_def Blob_ok_def Blob_bytes_def)
  have a1: "appendFile 524288 ''a.txt'' (replicate 1048576 (CHR ''a'')) 0 1048576 BuilderImpl_new = Some ?s2"
    by (simp add: appendFile_def appendFilePart_def BuilderImpl_new_def)
       (subst flushIfNeeded.simps, simp add: fc flushIfNeeded_below)
  have a2: "appendFile 524288 ''b.txt'' (replicate 2 (CHR ''b'')) 0 2 ?s2 = Some ?s3"
    by (simp add: appendFile_def appendFilePart_def flushIfNeeded_below)
  have f3: "flushChunk 524288 ?s3 = Some ?s4"
    using flushChunk_all_fit [of ?s3 524288]
    by (simp add: Blob_ok_def Blob_size_def File_new_def Blob_of_def)
  have fl: "flush 524288 ?s3 = Some ?s4"
    by (subst flush.simps) (simp add: f3 flush_zero)
  show ?thesis
    by (simp add: buildProject_def a1 a2 fl)
qed

lemma two_files_headers:
  "builtHeaders
             [Built \<lparr>files = [File_new ''a.txt'' 0 (replicate 1048576 (CHR ''a'')) 0 1048576],
                     totalSize = 1048576\<rparr>,
              Built \<lparr>files =
                       [\<lparr>name = ''a.txt'',
                         contents = \<lparr>offset = 1048576, count = 0, storage = replicate 1048576 (CHR ''a'')\<rparr>,
                         startLine = 1, fileSize = 1048576, timeStamp = 0\<rparr>,
                        File_new ''b.txt'' 0 (replicate 2 (CHR ''b'')) 0 2],
                     totalSize = 2\<rparr>] =
   [[\<lparr>nameOffset = 40, nameLength = 5, dataOffset = 45, dataSize = 1048576,
        h_startLine = 0, h_reserved = 0, h_fileSize = 1048576, h_timeStamp = 0\<rparr>],
    [\<lparr>nameOffset = 80, nameLength = 5, dataOffset = 90, dataSize = 0,
        h_startLine = 1, h_reserved = 0, h_fileSize = 1048576, h_timeStamp = 0\<rparr>,
     \<lparr>nameOffset = 85, nameLength = 5, dataOffset = 90, dataSize = 2,
        h_startLine = 0, h_reserved = 0, h_fileSize = 2, h_timeStamp = 0\<rparr>]]"
  by (simp add: prepareChunkData_def getChunkNameTotalSize_def getChunkDataTotalSize_def
      File_new_def Blob_of_def Blob_data_def Blob_size_def)

text \<open>
  C9 at these two files. The store holds two records of \<^verbatim>\<open>a.txt\<close>: the first, in the
  first chunk, has start line 0 and 1048576 bytes without a line feed; the second, in
  the second chunk, has no bytes and start line 1, although no line feed precedes it.
  \<^verbatim>\<open>appendChunkFilePrefix\<close> adds \<^verbatim>\<open>skipLines = 1\<close> in its fallback also when
  \<^verbatim>\<open>skipOneLine\<close> reached the end of the data without finding a line feed.
\<close>

theorem long_line_remainder_start_line:
  "LF \<notin> set (replicate 1048576 (CHR ''a'')) \<and>
   buildProject 524288
     [(''a.txt'', replicate 1048576 (CHR ''a''), 0, 1048576),
      (''b.txt'', replicate 2 (CHR ''b''), 0, 2)] \<noteq> None \<and>
   builtHeaders (outData (the (buildProject 524288
     [(''a.txt'', replicate 1048576 (CHR ''a''), 0, 1048576),
      (''b.txt'', replicate 2 (CHR ''b''), 0, 2)]))) =
   [[\<lparr>nameOffset = 40, nameLength = 5, dataOffset = 45, dataSize = 1048576,
        h_startLine = 0, h_reserved = 0, h_fileSize = 1048576, h_timeStamp = 0\<rparr>],
    [\<lparr>nameOffset = 80, nameLength = 5, dataOffset = 90, dataSize = 0,
        h_startLine = 1, h_reserved = 0, h_fileSize = 1048576, h_timeStamp = 0\<rparr>,
     \<lparr>nameOffset = 85, nameLength = 5, dataOffset = 90, dataSize = 2,
        h_startLine = 0, h_reserved = 0, h_fileSize = 2, h_timeStamp = 0\<rparr>]]"
  by (simp add: two_files_build two_files_headers del: builtHeaders.simps)

section \<open>One file that is a single long line\<close>

text \<open>
  C2, as stated, at a file of 1.5 MiB without a line feed and a chunk size of 512 KiB:
  the file is written as one chunk whose contents alone are three times the chunk size,
  more than the bound of twice the chunk size.
\<close>

theorem long_line_chunk_size_counterexample:
  "\<exists>s. buildProject 524288 [(''long.txt'', replicate 1572864 (CHR ''a''), 0, 1572864)] = Some s \<and>
     outData s = [Built \<lparr>files = [File_new ''long.txt'' 0 (replicate 1572864 (CHR ''a'')) 0 1572864],
                         totalSize = 1572864\<rparr>] \<and>
     map_option (ChunkData_size \<circ> fst)
       (prepareChunkData \<lparr>files = [File_new ''long.txt'' 0 (replicate 1572864 (CHR ''a'')) 0 1572864],
                          totalSize = 1572864\<rparr>) = Some 1572912 \<and>
     \<not> (1572912::nat) \<le> 2 * 524288"
proof -
  have "map_option (ChunkData_size \<circ> fst)
     (prepareChunkData \<lparr>files = [File_new ''long.txt'' 0 (replicate 1572864 (CHR ''a'')) 0 1572864],
                        totalSize = 1572864\<rparr>) = Some 1572912"
    by (simp add: prepareChunkData_def getChunkNameTotalSize_def getChunkDataTotalSize_def
        File_new_def Blob_of_def Blob_data_def Blob_size_def ChunkData_size_def)
  then show ?thesis
    using buildProject_single_long_line
      [of "replicate 1572864 (CHR ''a'')" 524288 "''long.txt''" 0 1572864]
    by simp
qed

section \<open>Properties of the scan of one file record\<close>

text \<open>
  The three walks over the buffer, started inside it, return, and return what their
  names say.
\<close>

lemma countLines_loop_ok:
  "s \<le> e \<Longrightarrow> e \<le> length buf \<Longrightarrow>
   countLines_loop buf s e res = Some (res + of_nat (countLF (take (e - s) (drop s buf))))"
proof (induction "e - s" arbitrary: s res)
  case 0
  then show ?case by (subst countLines_loop.simps) (simp add: countLF_def)
next
  case (Suc k)
  then have lt: "s < e" and k: "k = e - (s + 1)" by simp_all
  have d: "take (e - s) (drop s buf) = buf ! s # take (e - (s + 1)) (drop (s + 1) buf)"
    using lt Suc.prems by (metis Cons_nth_drop_Suc Suc_diff_Suc Suc_eq_plus1 add.commute diff_diff_left less_le_trans take_Suc_Cons)
  have "countLines_loop buf s e res =
        countLines_loop buf (s + 1) e (res + (if buf ! s = LF then 1 else 0))"
    using lt by (subst countLines_loop.simps) simp
  also have "\<dots> = Some (res + (if buf ! s = LF then 1 else 0) + of_nat (countLF (take (e - (s + 1)) (drop (s + 1) buf))))"
    using Suc.hyps(1) [OF k] lt Suc.prems by simp
  finally show ?case by (simp add: d countLF_def)
qed

lemma findLineEnd_ok:
  "s \<le> e \<Longrightarrow> e \<le> length buf \<Longrightarrow>
   \<exists>l. findLineEnd buf s e = Some l \<and> s \<le> l \<and> l \<le> e \<and>
       (\<forall>j. s \<le> j \<and> j < l \<longrightarrow> buf ! j \<noteq> LF) \<and> (l < e \<longrightarrow> buf ! l = LF)"
proof (induction "e - s" arbitrary: s)
  case 0
  then show ?case by (subst findLineEnd.simps) auto
next
  case (Suc k)
  then have lt: "s < e" and k: "k = e - (s + 1)" by simp_all
  show ?case
  proof (cases "buf ! s = LF")
    case True
    then show ?thesis using lt by (subst findLineEnd.simps) auto
  next
    case False
    from Suc.hyps(1) [OF k] lt Suc.prems obtain l where
      l: "findLineEnd buf (s + 1) e = Some l" "s + 1 \<le> l" "l \<le> e"
         "\<forall>j. s + 1 \<le> j \<and> j < l \<longrightarrow> buf ! j \<noteq> LF" "l < e \<longrightarrow> buf ! l = LF"
      by auto
    have "findLineEnd buf s e = Some l"
      using lt False l(1) by (subst findLineEnd.simps) simp
    moreover have "\<forall>j. s \<le> j \<and> j < l \<longrightarrow> buf ! j \<noteq> LF"
    proof (intro allI impI)
      fix j assume "s \<le> j \<and> j < l"
      then show "buf ! j \<noteq> LF" using False l(4) by (cases "j = s") auto
    qed
    ultimately show ?thesis using l by auto
  qed
qed

lemma findLineStart_ok:
  "b \<le> s \<Longrightarrow>
   b \<le> findLineStart buf b s \<and> findLineStart buf b s \<le> s \<and>
   (\<forall>j. findLineStart buf b s \<le> j \<and> j < s \<longrightarrow> buf ! j \<noteq> LF) \<and>
   (b < findLineStart buf b s \<longrightarrow> buf ! (findLineStart buf b s - 1) = LF)"
proof (induction buf b s rule: findLineStart.induct)
  case (1 buf b s)
  show ?case
  proof (cases "s > b")
    case False
    then have "findLineStart buf b s = b" by (subst findLineStart.simps) simp
    then show ?thesis using "1.prems" False by auto
  next
    case True
    show ?thesis
    proof (cases "buf ! (s - 1) = LF")
      case T: True
      then have "findLineStart buf b s = s" using True by (subst findLineStart.simps) simp
      then show ?thesis using True T by auto
    next
      case F: False
      have e: "findLineStart buf b s = findLineStart buf b (s - 1)"
        using True F by (subst findLineStart.simps) simp
      have ih: "b \<le> findLineStart buf b (s - 1) \<and> findLineStart buf b (s - 1) \<le> s - 1 \<and>
        (\<forall>j. findLineStart buf b (s - 1) \<le> j \<and> j < s - 1 \<longrightarrow> buf ! j \<noteq> LF) \<and>
        (b < findLineStart buf b (s - 1) \<longrightarrow> buf ! (findLineStart buf b (s - 1) - 1) = LF)"
        using "1.IH" [OF True F] True by simp
      have "\<forall>j. findLineStart buf b (s - 1) \<le> j \<and> j < s \<longrightarrow> buf ! j \<noteq> LF"
      proof (intro allI impI)
        fix j assume "findLineStart buf b (s - 1) \<le> j \<and> j < s"
        then show "buf ! j \<noteq> LF" using F ih by (cases "j = s - 1") auto
      qed
      then show ?thesis using ih e by auto
    qed
  qed
qed

text \<open>
  The start of the line enclosing a position is determined by two facts: no line feed
  lies between it and the position, and it is the start of the buffer or follows a line
  feed.
\<close>

lemma countLF_append [simp]: "countLF (xs @ ys) = countLF xs + countLF ys"
  by (simp add: countLF_def)

lemma countLF_no_LF: "LF \<notin> set xs \<Longrightarrow> countLF xs = 0"
  by (induction xs) (auto simp: countLF_def)

lemma slice_no_LF:
  assumes "\<forall>j. a \<le> j \<and> j < c \<longrightarrow> buf ! j \<noteq> LF" and "c \<le> length buf"
  shows "LF \<notin> set (take (c - a) (drop a buf))"
proof
  assume "LF \<in> set (take (c - a) (drop a buf))"
  then obtain i where i: "i < length (take (c - a) (drop a buf))" "take (c - a) (drop a buf) ! i = LF"
    by (auto simp: in_set_conv_nth)
  then have "i < c - a" by simp
  moreover have "buf ! (a + i) = LF" using i assms(2) by simp
  ultimately show False using assms(1) by (metis add.commute le_add2 less_diff_conv)
qed

lemma take_split: "b \<le> m \<Longrightarrow> take m buf = take b buf @ take (m - b) (drop b buf)"
  using take_add [of b "m - b" buf] by simp

lemma lineStartOf_unique:
  assumes "l \<le> m" and "m \<le> length buf"
    and nl: "\<forall>j. l \<le> j \<and> j < m \<longrightarrow> buf ! j \<noteq> LF"
    and st: "l = 0 \<or> buf ! (l - 1) = LF"
  shows "lineStartOf buf m = l"
proof -
  let ?seg = "take (m - l) (drop l buf)"
  have seg: "LF \<notin> set ?seg" using slice_no_LF [OF nl assms(2)] .
  have len: "length ?seg = m - l" using assms(1,2) by simp
  have tw0: "takeWhile (\<lambda>c. c \<noteq> LF) (rev (take l buf)) = []"
  proof (cases "l = 0")
    case True
    then show ?thesis by simp
  next
    case False
    then have "buf ! (l - 1) = LF" using st by simp
    moreover have "l \<le> length buf" using assms(1,2) by simp
    ultimately have "take l buf = take (l - 1) buf @ [LF]"
      using False by (metis Suc_pred' less_le_trans lessI neq0_conv take_Suc_conv_app_nth)
    then show ?thesis by simp
  qed
  have "rev (take m buf) = rev ?seg @ rev (take l buf)"
    using take_split [OF assms(1), of buf] by simp
  moreover have "takeWhile (\<lambda>c. c \<noteq> LF) (rev ?seg @ rev (take l buf)) =
      rev ?seg @ takeWhile (\<lambda>c. c \<noteq> LF) (rev (take l buf))"
    by (rule takeWhile_append2) (use seg in auto)
  ultimately have "takeWhile (\<lambda>c. c \<noteq> LF) (rev (take m buf)) = rev ?seg"
    using tw0 by simp
  then show ?thesis
    using len assms(1) by (simp add: lineStartOf_def)
qed

text \<open>
  The loop of \<^verbatim>\<open>processFile\<close>, by induction on the number of bytes left. It is entered
  at the start of a line with the line counter at the start line plus the line feeds
  before \<open>b\<close>; it appends reports to those it was given, each with the right line and
  column and on a line of its own, and they are the first matches per line from \<open>b\<close> on.
\<close>

lemma takeWhile_first: "c \<notin> set xs \<Longrightarrow> takeWhile (\<lambda>x. x \<noteq> c) (xs @ c # ys) = xs"
  by (induction xs) auto

lemma lineEndOf_LF:
  assumes "a \<le> l" and "l < length buf" and "buf ! l = LF"
    and "\<forall>j. a \<le> j \<and> j < l \<longrightarrow> buf ! j \<noteq> LF"
  shows "LF \<in> set (drop a buf) \<and> lineEndOf buf a = l"
proof -
  have n: "LF \<notin> set (take (l - a) (drop a buf))"
    using slice_no_LF [OF assms(4)] assms(2) by simp
  have "drop a buf = take (l - a) (drop a buf) @ drop (l - a) (drop a buf)"
    by (rule append_take_drop_id [symmetric])
  also have "drop (l - a) (drop a buf) = drop l buf" using assms(1) by simp
  also have "drop l buf = LF # drop (Suc l) buf"
    using Cons_nth_drop_Suc [OF assms(2)] assms(3) by simp
  finally have d: "drop a buf = take (l - a) (drop a buf) @ LF # drop (Suc l) buf" .
  have "takeWhile (\<lambda>c. c \<noteq> LF) (drop a buf) = take (l - a) (drop a buf)"
    using n by (subst d) (rule takeWhile_first)
  then have "lineEndOf buf a = l"
    using assms(1,2) by (simp add: lineEndOf_def)
  moreover have "LF \<in> set (drop a buf)" by (subst d) simp
  ultimately show ?thesis by simp
qed

lemma processFile_loop_reports:
  assumes rs: "\<And>r p n. rangeSearch re r = Some (p, n) \<Longrightarrow>
                 p + n \<le> length r \<and> LF \<notin> set (take n (drop p r))"
    and e: "e = length buf"
  shows "b \<le> e \<Longrightarrow> b = 0 \<or> buf ! (b - 1) = LF \<Longrightarrow>
     line = sl + of_nat (countLF (take b buf)) \<Longrightarrow>
     \<exists>new. processFile_loop re buf e b line out = Some (out @ new) \<and>
       (\<forall>r \<in> set new. report_ok buf sl r \<and>
          countLF (take b buf) \<le> countLF (take (fst (m_match r)) buf)) \<and>
       first_per_line re buf b (map m_match new) \<and>
       sorted_wrt (<) (map (\<lambda>r. countLF (take (fst (m_match r)) buf)) new)"
proof (induction "e - b" arbitrary: b line out rule: less_induct)
  case less
  have whole: "take (e - b) (drop b buf) = drop b buf" using e by simp
  show ?case
  proof (cases "rangeSearch re (take (e - b) (drop b buf))")
    case None
    then have "processFile_loop re buf e b line out = Some (out @ [])"
      by (subst processFile_loop.simps) simp
    moreover have "first_per_line re buf b (map m_match [])" using None whole by simp
    ultimately show ?thesis by (intro exI [of _ "[]"]) simp
  next
    case (Some pn)
    obtain p n where pn: "pn = (p, n)" by (cases pn)
    have inr: "p + n \<le> e - b" and mnl: "LF \<notin> set (take n (drop p (take (e - b) (drop b buf))))"
      using rs [of "take (e - b) (drop b buf)" p n] Some pn e less.prems(1) by simp_all
    let ?md = "b + p"
    have md: "?md \<le> e" "b \<le> ?md" using inr less.prems(1) by simp_all
    have cl: "countLines buf b ?md = Some (of_nat (countLF (take p (drop b buf))))"
      using countLines_loop_ok [of b ?md buf 0] md e by (simp add: countLines_def)
    have mde: "?md + n \<le> e" "e \<le> length buf" using inr less.prems(1) e by simp_all
    from findLineEnd_ok [OF mde] obtain lend where
      le: "findLineEnd buf (?md + n) e = Some lend" "?md + n \<le> lend" "lend \<le> e"
          "\<forall>j. ?md + n \<le> j \<and> j < lend \<longrightarrow> buf ! j \<noteq> LF" "lend < e \<longrightarrow> buf ! lend = LF"
      by auto
    let ?lbeg = "findLineStart buf b ?md"
    from findLineStart_ok [of b ?md buf] have
      lb: "b \<le> ?lbeg" "?lbeg \<le> ?md" "\<forall>j. ?lbeg \<le> j \<and> j < ?md \<longrightarrow> buf ! j \<noteq> LF"
          "b < ?lbeg \<longrightarrow> buf ! (?lbeg - 1) = LF"
      by simp_all
    have ls: "lineStartOf buf ?md = ?lbeg"
    proof (rule lineStartOf_unique [OF lb(2) _ lb(3)])
      show "?md \<le> length buf" using md e by simp
      show "?lbeg = 0 \<or> buf ! (?lbeg - 1) = LF"
        using lb(1,4) less.prems(2) by (cases "b < ?lbeg") auto
    qed
    let ?line = "line + (1 + of_nat (countLF (take p (drop b buf))))"
    have tk: "take ?md buf = take b buf @ take p (drop b buf)"
      using take_split [of b ?md buf] by simp
    have line: "?line = sl + 1 + of_nat (countLF (take ?md buf))"
      using less.prems(3) by (simp add: tk)
    let ?r = "\<lparr>m_match = (?md, n), m_line = ?line,
               m_column = of_nat ((?md - ?lbeg) + 1), m_text = (?lbeg, lend - ?lbeg)\<rparr>"
    have rok: "report_ok buf sl ?r"
      using line ls by (simp add: report_ok_def)
    have ge: "countLF (take b buf) \<le> countLF (take ?md buf)" by (simp add: tk)
    have eng: "rangeSearch re (drop b buf) = Some (?md - b, n)"
      using Some pn whole by simp
    have unf: "processFile_loop re buf e b line out =
        (if lend = e then Some (out @ [?r])
         else processFile_loop re buf e (lend + 1) ?line (out @ [?r]))"
      using inr by (subst processFile_loop.simps) (simp add: Some pn cl le(1) Let_def)
    show ?thesis
    proof (cases "lend = e")
      case True
      have "LF \<notin> set (take (e - (?md + n)) (drop (?md + n) buf))"
        using slice_no_LF [of "?md + n" e buf] le(4) True e by simp
      then have nolf: "LF \<notin> set (drop (?md + n) buf)" using e by simp
      have f: "first_per_line re buf b (map m_match [?r])"
        using md(2) eng nolf by simp
      have "processFile_loop re buf e b line out = Some (out @ [?r])" using unf True by simp
      then show ?thesis using rok ge f
        by (intro exI [of _ "[?r]"]) (simp del: first_per_line.simps)
    next
      case False
      then have lt: "lend < e" using le(3) by simp
      then have lf: "buf ! lend = LF" using le(5) by simp
      have m1: "LF \<notin> set (take n (drop ?md buf))"
      proof -
        have "take n (drop p (take (e - b) (drop b buf))) = take n (drop ?md buf)"
          using inr by (simp add: drop_take add.commute min_def)
        then show ?thesis using mnl by simp
      qed
      have m2: "LF \<notin> set (take (lend - (?md + n)) (drop (?md + n) buf))"
        using slice_no_LF [OF le(4)] lt e by simp
      have t1: "take (lend + 1) buf = take lend buf @ [LF]"
        using lt e lf by (simp add: take_Suc_conv_app_nth)
      have t2: "take lend buf = take (?md + n) buf @ take (lend - (?md + n)) (drop (?md + n) buf)"
        using take_split [OF le(2), of buf] .
      have t3: "take (?md + n) buf = take ?md buf @ take n (drop ?md buf)"
        using take_add [of ?md n buf] by simp
      have c1: "countLF (take (lend + 1) buf) = countLF (take lend buf) + 1"
        by (subst t1) (simp add: countLF_def)
      have c2: "countLF (take lend buf) = countLF (take (?md + n) buf)"
        by (subst t2) (simp add: countLF_no_LF [OF m2])
      have c3: "countLF (take (?md + n) buf) = countLF (take ?md buf)"
        by (subst t3) (simp add: countLF_no_LF [OF m1])
      have cnt: "countLF (take (lend + 1) buf) = countLF (take ?md buf) + 1"
        using c1 c2 c3 by simp
      have line': "?line = sl + of_nat (countLF (take (lend + 1) buf))"
        using line cnt by simp
      have "\<exists>new. processFile_loop re buf e (lend + 1) ?line (out @ [?r]) = Some ((out @ [?r]) @ new) \<and>
          (\<forall>r \<in> set new. report_ok buf sl r \<and>
             countLF (take (lend + 1) buf) \<le> countLF (take (fst (m_match r)) buf)) \<and>
          first_per_line re buf (lend + 1) (map m_match new) \<and>
          sorted_wrt (<) (map (\<lambda>r. countLF (take (fst (m_match r)) buf)) new)"
      proof (rule less.hyps [OF _ _ _ line'])
        show "e - (lend + 1) < e - b" using lt le(2) md by simp
        show "lend + 1 \<le> e" using lt by simp
        show "lend + 1 = 0 \<or> buf ! (lend + 1 - 1) = LF" using lf by simp
      qed
      then obtain new where
        n1: "processFile_loop re buf e (lend + 1) ?line (out @ [?r]) = Some ((out @ [?r]) @ new)"
        and n2: "\<forall>r \<in> set new. report_ok buf sl r \<and>
             countLF (take (lend + 1) buf) \<le> countLF (take (fst (m_match r)) buf)"
        and n3: "first_per_line re buf (lend + 1) (map m_match new)"
        and n4: "sorted_wrt (<) (map (\<lambda>r. countLF (take (fst (m_match r)) buf)) new)"
        by blast
      have le': "LF \<in> set (drop (?md + n) buf) \<and> lineEndOf buf (?md + n) = lend"
        using lineEndOf_LF [OF le(2) _ lf le(4)] lt e by simp
      have f: "first_per_line re buf b (map m_match (?r # new))"
        using md(2) eng le' n3 by simp
      have a: "\<forall>r \<in> set (?r # new). report_ok buf sl r \<and>
          countLF (take b buf) \<le> countLF (take (fst (m_match r)) buf)"
        using rok ge n2 cnt by auto
      have s: "sorted_wrt (<) (map (\<lambda>r. countLF (take (fst (m_match r)) buf)) (?r # new))"
        using n2 n4 cnt by auto
      have "processFile_loop re buf e b line out = Some (out @ ?r # new)"
        using unf False n1 by simp
      then show ?thesis using a f s by blast
    qed
  qed
qed

text \<open>
  Line and column depend on the data only through the positions of its line feeds, which
  the searched buffer shares with the data.
\<close>

lemma same_LF_map:
  assumes "length buf = length data" and "\<forall>i < length data. (buf ! i = LF) = (data ! i = LF)"
  shows "map (\<lambda>c. c = LF) buf = map (\<lambda>c. c = LF) data"
  using assms by (intro nth_equalityI) simp_all

lemma countLF_map: "countLF xs = length (filter (\<lambda>b. b) (map (\<lambda>c. c = LF) xs))"
  by (simp add: countLF_def filter_map comp_def)

lemma lineStartOf_map:
  "lineStartOf xs k = k - length (takeWhile (\<lambda>b. \<not> b) (rev (take k (map (\<lambda>c. c = LF) xs))))"
  by (simp add: lineStartOf_def takeWhile_map take_map rev_map comp_def)

lemma report_ok_transfer:
  assumes "map (\<lambda>c. c = LF) buf = map (\<lambda>c. c = LF) data"
  shows "report_ok buf sl r = report_ok data sl r"
proof -
  have "countLF (take k buf) = countLF (take k data)" for k
    using assms by (simp add: countLF_map take_map [symmetric])
  moreover have "lineStartOf buf k = lineStartOf data k" for k
    using assms by (simp add: lineStartOf_map)
  ultimately show ?thesis by (simp add: report_ok_def)
qed

lemma first_occurrence:
  "c \<in> set r \<Longrightarrow> length (takeWhile (\<lambda>x. x \<noteq> c) r) < length r \<and>
     r ! length (takeWhile (\<lambda>x. x \<noteq> c) r) = c"
  by (induction r) auto

lemma Regex_byte_contract: "c \<noteq> LF \<Longrightarrow> Regex_contract (Regex_byte c)"
proof -
  assume c: "c \<noteq> LF"
  have "p + n \<le> length r \<and> LF \<notin> set (take n (drop p r))"
    if "rangeSearch (Regex_byte c) r = Some (p, n)" for r p n
  proof -
    from that have in_r: "c \<in> set r" and p: "p = length (takeWhile (\<lambda>x. x \<noteq> c) r)" and n: "n = 1"
      by (auto simp: Regex_byte_def split: if_splits)
    have lt: "p < length r" and at: "r ! p = c"
      using first_occurrence [OF in_r] p by simp_all
    have "drop p r = c # drop (Suc p) r" using Cons_nth_drop_Suc [OF lt] at by simp
    then have "take n (drop p r) = [c]" using n by simp
    then show ?thesis using lt n c by simp
  qed
  then show ?thesis by (simp add: Regex_contract_def) (simp add: Regex_byte_def)
qed

lemma processFile_example:
  "processFile (Regex_byte (CHR ''x''))
     [CHR ''a'', CHR ''x'', LF, CHR ''b'', LF, LF, CHR ''x'', CHR ''x'', LF,
      CHR ''a'', CHR ''a'', CHR ''x''] 7 =
   Some [\<lparr>m_match = (1, 1), m_line = 8, m_column = 2, m_text = (0, 2)\<rparr>,
         \<lparr>m_match = (6, 1), m_line = 11, m_column = 1, m_text = (6, 2)\<rparr>,
         \<lparr>m_match = (11, 1), m_line = 12, m_column = 3, m_text = (9, 3)\<rparr>]"
  by code_simp

text \<open>
  C4, as stated, speaks of every match in a record. On the record \<^verbatim>\<open>"xx"\<close>, searched
  for the byte \<^verbatim>\<open>x\<close>, the byte at offset 1 is a match (the engine returns it for the
  range that starts there), on line 1 at column 2; the scan makes one report, for the
  match at offset 0, and none for this one: after a report it moves to the next line.
\<close>

theorem processFile_second_match_counterexample:
  "processFile (Regex_byte (CHR ''x'')) [CHR ''x'', CHR ''x''] 0 =
     Some [\<lparr>m_match = (0, 1), m_line = 1, m_column = 1, m_text = (0, 2)\<rparr>] \<and>
   rangeSearch (Regex_byte (CHR ''x'')) (drop 1 [CHR ''x'', CHR ''x'']) = Some (0, 1) \<and>
   \<not> list_ex (\<lambda>r. fst (m_match r) = 1 \<or> m_column r = 2)
       (the (processFile (Regex_byte (CHR ''x'')) [CHR ''x'', CHR ''x''] 0))"
  by code_simp

text \<open>
  C4, amended. For an engine that keeps its contract (the searched buffer has the line
  feeds of the data; a match lies in the range searched and within one line),
  \<^verbatim>\<open>processFile\<close> returns, and it reports the first match the engine returns in the
  record and then, each time, the first match the engine returns from the start of the
  line after the one last reported, so at most one match per line, in the order of the
  lines. Every call of \<^verbatim>\<open>processMatch\<close> it makes reports, for that match, the line
  \<open>startLine + 1 +\<close> the number of line feeds in the data before the start of the match,
  and the column 1 + the offset of the start of the match from the start of its line,
  as 32-bit unsigned numbers.
\<close>

theorem processFile_first_match_per_line:
  assumes "Regex_contract re"
  shows "\<exists>rs. processFile re data startLine' = Some rs \<and>
     (\<forall>r \<in> set rs. report_ok data startLine' r) \<and>
     first_per_line re (rangePrepare re data) 0 (map m_match rs) \<and>
     sorted_wrt (<) (map (\<lambda>r. countLF (take (fst (m_match r)) data)) rs)"
proof -
  let ?buf = "rangePrepare re data"
  have len: "length ?buf = length data"
    and lf: "\<forall>i < length data. (?buf ! i = LF) = (data ! i = LF)"
    and rs: "\<And>r p n. rangeSearch re r = Some (p, n) \<Longrightarrow>
                 p + n \<le> length r \<and> LF \<notin> set (take n (drop p r))"
    using assms by (auto simp: Regex_contract_def)
  have same: "map (\<lambda>c. c = LF) ?buf = map (\<lambda>c. c = LF) data"
    by (rule same_LF_map [OF len lf])
  have tr: "report_ok ?buf startLine' r = report_ok data startLine' r" for r
    by (rule report_ok_transfer [OF same])
  have cn: "countLF (take k ?buf) = countLF (take k data)" for k
    using same by (simp add: countLF_map take_map [symmetric])
  have "\<exists>new. processFile_loop re ?buf (length data) 0 startLine' [] = Some ([] @ new) \<and>
       (\<forall>r \<in> set new. report_ok ?buf startLine' r \<and>
          countLF (take 0 ?buf) \<le> countLF (take (fst (m_match r)) ?buf)) \<and>
       first_per_line re ?buf 0 (map m_match new) \<and>
       sorted_wrt (<) (map (\<lambda>r. countLF (take (fst (m_match r)) ?buf)) new)"
    by (rule processFile_loop_reports [OF rs]) (simp_all add: len countLF_def)
  then obtain new where
    "processFile_loop re ?buf (length data) 0 startLine' [] = Some new"
    "\<forall>r \<in> set new. report_ok ?buf startLine' r"
    "first_per_line re ?buf 0 (map m_match new)"
    "sorted_wrt (<) (map (\<lambda>r. countLF (take (fst (m_match r)) ?buf)) new)"
    by auto
  then show ?thesis by (simp add: processFile_def tr cn)
qed

theorem processFile_first_match_per_line_witness:
  "Regex_contract (Regex_byte (CHR ''x'')) \<and>
   processFile (Regex_byte (CHR ''x''))
     [CHR ''a'', CHR ''x'', LF, CHR ''b'', LF, LF, CHR ''x'', CHR ''x'', LF,
      CHR ''a'', CHR ''a'', CHR ''x''] 7 =
   Some [\<lparr>m_match = (1, 1), m_line = 8, m_column = 2, m_text = (0, 2)\<rparr>,
         \<lparr>m_match = (6, 1), m_line = 11, m_column = 1, m_text = (6, 2)\<rparr>,
         \<lparr>m_match = (11, 1), m_line = 12, m_column = 3, m_text = (9, 3)\<rparr>] \<and>
   list_all (report_ok [CHR ''a'', CHR ''x'', LF, CHR ''b'', LF, LF, CHR ''x'', CHR ''x'', LF,
                        CHR ''a'', CHR ''a'', CHR ''x''] 7)
     [\<lparr>m_match = (1, 1), m_line = 8, m_column = 2, m_text = (0, 2)\<rparr>,
      \<lparr>m_match = (6, 1), m_line = 11, m_column = 1, m_text = (6, 2)\<rparr>,
      \<lparr>m_match = (11, 1), m_line = 12, m_column = 3, m_text = (9, 3)\<rparr>] \<and>
   first_per_line (Regex_byte (CHR ''x''))
     (rangePrepare (Regex_byte (CHR ''x''))
        [CHR ''a'', CHR ''x'', LF, CHR ''b'', LF, LF, CHR ''x'', CHR ''x'', LF,
         CHR ''a'', CHR ''a'', CHR ''x''])
     0 [(1, 1), (6, 1), (11, 1)] \<and>
   sorted_wrt (<)
     (map (\<lambda>r. countLF (take (fst (m_match r))
              [CHR ''a'', CHR ''x'', LF, CHR ''b'', LF, LF, CHR ''x'', CHR ''x'', LF,
               CHR ''a'', CHR ''a'', CHR ''x'']))
        [\<lparr>m_match = (1, 1), m_line = 8, m_column = 2, m_text = (0, 2)\<rparr>,
         \<lparr>m_match = (6, 1), m_line = 11, m_column = 1, m_text = (6, 2)\<rparr>,
         \<lparr>m_match = (11, 1), m_line = 12, m_column = 3, m_text = (9, 3)\<rparr>])"
proof -
  have c: "Regex_contract (Regex_byte (CHR ''x''))"
    by (rule Regex_byte_contract) simp
  from processFile_first_match_per_line [OF c, of
      "[CHR ''a'', CHR ''x'', LF, CHR ''b'', LF, LF, CHR ''x'', CHR ''x'', LF,
        CHR ''a'', CHR ''a'', CHR ''x'']" 7]
  have "\<exists>rs. Some [\<lparr>m_match = (1, 1), m_line = 8, m_column = 2, m_text = (0, 2)\<rparr>,
         \<lparr>m_match = (6, 1), m_line = 11, m_column = 1, m_text = (6, 2)\<rparr>,
         \<lparr>m_match = (11, 1), m_line = 12, m_column = 3, m_text = (9, 3)\<rparr>] = Some rs \<and>
     (\<forall>r \<in> set rs. report_ok [CHR ''a'', CHR ''x'', LF, CHR ''b'', LF, LF, CHR ''x'', CHR ''x'', LF,
        CHR ''a'', CHR ''a'', CHR ''x''] 7 r) \<and>
     first_per_line (Regex_byte (CHR ''x'')) (rangePrepare (Regex_byte (CHR ''x''))
        [CHR ''a'', CHR ''x'', LF, CHR ''b'', LF, LF, CHR ''x'', CHR ''x'', LF,
         CHR ''a'', CHR ''a'', CHR ''x'']) 0 (map m_match rs) \<and>
     sorted_wrt (<) (map (\<lambda>r. countLF (take (fst (m_match r))
        [CHR ''a'', CHR ''x'', LF, CHR ''b'', LF, LF, CHR ''x'', CHR ''x'', LF,
         CHR ''a'', CHR ''a'', CHR ''x''])) rs)"
    by (simp only: processFile_example)
  then obtain rs where rs: "rs = [\<lparr>m_match = (1, 1), m_line = 8, m_column = 2, m_text = (0, 2)\<rparr>,
         \<lparr>m_match = (6, 1), m_line = 11, m_column = 1, m_text = (6, 2)\<rparr>,
         \<lparr>m_match = (11, 1), m_line = 12, m_column = 3, m_text = (9, 3)\<rparr>]"
     and p: "\<forall>r \<in> set rs. report_ok [CHR ''a'', CHR ''x'', LF, CHR ''b'', LF, LF, CHR ''x'', CHR ''x'', LF,
        CHR ''a'', CHR ''a'', CHR ''x''] 7 r"
     "first_per_line (Regex_byte (CHR ''x'')) (rangePrepare (Regex_byte (CHR ''x''))
        [CHR ''a'', CHR ''x'', LF, CHR ''b'', LF, LF, CHR ''x'', CHR ''x'', LF,
         CHR ''a'', CHR ''a'', CHR ''x'']) 0 (map m_match rs)"
     "sorted_wrt (<) (map (\<lambda>r. countLF (take (fst (m_match r))
        [CHR ''a'', CHR ''x'', LF, CHR ''b'', LF, LF, CHR ''x'', CHR ''x'', LF,
         CHR ''a'', CHR ''a'', CHR ''x''])) rs)"
    by auto
  have m: "map m_match rs = [(1, 1), (6, 1), (11, 1)]" by (simp add: rs)
  show ?thesis
    using c p(1) p(2) [unfolded m] p(3) unfolding rs
    by (simp only: processFile_example list_all_iff simp_thms)
qed

text \<open>
  The clause of the contract that a match lies within one line is needed: after a match
  that contains a line feed, the line counter misses that line feed. On \<^verbatim>\<open>"a\nb\ncc"\<close>
  the second match starts after two line feeds and is reported on line 2, not 3.
\<close>

lemma processFile_match_across_lines:
  "processFile Regex_pair [CHR ''a'', LF, CHR ''b'', LF, CHR ''c'', CHR ''c''] 0 =
     Some [\<lparr>m_match = (0, 2), m_line = 1, m_column = 1, m_text = (0, 3)\<rparr>,
           \<lparr>m_match = (4, 2), m_line = 2, m_column = 1, m_text = (4, 2)\<rparr>] \<and>
   \<not> report_ok [CHR ''a'', LF, CHR ''b'', LF, CHR ''c'', CHR ''c''] 0
       \<lparr>m_match = (4, 2), m_line = 2, m_column = 1, m_text = (4, 2)\<rparr>"
  by code_simp

section \<open>Properties of the ordered emitter and the order of output\<close>

text \<open>
  Chunk indices are 32-bit; below \<open>2\<^sup>3\<^sup>2\<close> chunks they are distinct. Releasing from
  a cursor \<open>c\<close> writes the sinks \<open>c, \<dots>, c' - 1\<close> in this order, where \<open>c'\<close> is the
  first index from \<open>c\<close> on whose sink is not held, and keeps the others.
\<close>

lemma of_nat_inj_32:
  "j < 2 ^ 32 \<Longrightarrow> k < 2 ^ 32 \<Longrightarrow> (of_nat j :: 32 word) = of_nat k \<Longrightarrow> j = k"
proof -
  assume a: "j < 2 ^ 32" "k < 2 ^ 32" "(of_nat j :: 32 word) = of_nat k"
  from a(3) have "unat (of_nat j :: 32 word) = unat (of_nat k :: 32 word)" by simp
  then show "j = k" using a(1,2) by (simp add: unat_of_nat)
qed

lemma release_inv:
  fixes L :: "nat \<Rightarrow> OutputLine list"
  assumes n: "n \<le> 2 ^ 32"
  shows "c \<le> n \<Longrightarrow> S \<subseteq> {c..<n} \<Longrightarrow> set (held st) = (\<lambda>j. (of_nat j, L j)) ` S \<Longrightarrow>
     distinct (map fst (held st)) \<Longrightarrow> current st = of_nat c \<Longrightarrow>
     \<exists>c'. c \<le> c' \<and> c' \<le> n \<and> {c..<c'} \<subseteq> S \<and> c' \<notin> S \<and>
       current (OrderedOutput_release st) = of_nat c' \<and>
       written (OrderedOutput_release st) = written st @ concat (map L [c..<c']) \<and>
       set (held (OrderedOutput_release st)) = (\<lambda>j. (of_nat j, L j)) ` {j \<in> S. c' \<le> j} \<and>
       distinct (map fst (held (OrderedOutput_release st)))"
proof (induction "n - c" arbitrary: c S st)
  case 0
  then have "S = {}" by auto
  then have "held st = []" using "0.prems"(3) by simp
  then have "OrderedOutput_release st = st"
    by (subst OrderedOutput_release.simps) simp
  then show ?case using 0 \<open>S = {}\<close> \<open>held st = []\<close> by (intro exI [of _ c]) simp
next
  case (Suc m)
  show ?case
  proof (cases "c \<in> S")
    case False
    have "map_of (held st) (of_nat c) = None"
    proof (rule ccontr)
      assume "map_of (held st) (of_nat c) \<noteq> None"
      then obtain t where "(of_nat c, t) \<in> set (held st)"
        by (auto dest: map_of_SomeD)
      then obtain j where j: "j \<in> S" "(of_nat j :: 32 word) = of_nat c"
        using Suc.prems(3) by auto
      then have "j < 2 ^ 32" "c < 2 ^ 32" using Suc.prems(2) n by auto
      then have "j = c" using j(2) by (rule of_nat_inj_32)
      then show False using j(1) False by simp
    qed
    then have "OrderedOutput_release st = st"
      using Suc.prems(5) by (subst OrderedOutput_release.simps) simp
    moreover have "{j \<in> S. c \<le> j} = S" using Suc.prems(2) by auto
    ultimately show ?thesis
      using Suc.prems False by (intro exI [of _ c]) simp
  next
    case True
    then have cn: "c < n" using Suc.prems(2) by auto
    have "(of_nat c, L c) \<in> set (held st)" using True Suc.prems(3) by auto
    then have look: "map_of (held st) (of_nat c) = Some (L c)"
      using Suc.prems(4) by (simp add: map_of_is_SomeI)
    let ?st1 = "\<lparr>current = current st + 1,
             held = filter (\<lambda>e. fst e \<noteq> current st) (held st),
             written = written st @ L c\<rparr>"
    have unf: "OrderedOutput_release st = OrderedOutput_release ?st1"
      using look Suc.prems(5) by (subst OrderedOutput_release.simps) simp
    have inj: "\<And>j. j \<in> S \<Longrightarrow> ((of_nat j :: 32 word) = of_nat c) = (j = c)"
    proof -
      fix j assume "j \<in> S"
      then have "j < 2 ^ 32" "c < 2 ^ 32" using Suc.prems(2) n cn by auto
      then show "((of_nat j :: 32 word) = of_nat c) = (j = c)"
        using of_nat_inj_32 by blast
    qed
    have h1: "set (held ?st1) = (\<lambda>j. (of_nat j, L j)) ` (S - {c})"
      using Suc.prems(3,5) inj by auto
    have d1: "distinct (map fst (held ?st1))"
      using Suc.prems(4) by (simp add: distinct_map_filter)
    have c1: "current ?st1 = of_nat (c + 1)" using Suc.prems(5) by simp
    have "\<exists>c'. c + 1 \<le> c' \<and> c' \<le> n \<and> {c + 1..<c'} \<subseteq> S - {c} \<and> c' \<notin> S - {c} \<and>
       current (OrderedOutput_release ?st1) = of_nat c' \<and>
       written (OrderedOutput_release ?st1) = written ?st1 @ concat (map L [c + 1..<c']) \<and>
       set (held (OrderedOutput_release ?st1)) = (\<lambda>j. (of_nat j, L j)) ` {j \<in> S - {c}. c' \<le> j} \<and>
       distinct (map fst (held (OrderedOutput_release ?st1)))"
    proof (rule Suc.hyps(1) [OF _ _ _ h1 d1 c1])
      show "m = n - (c + 1)" using Suc.hyps(2) by simp
      show "c + 1 \<le> n" using cn by simp
      show "S - {c} \<subseteq> {c + 1..<n}" using Suc.prems(2) by auto
    qed
    then obtain c' where c':
      "c + 1 \<le> c'" "c' \<le> n" "{c + 1..<c'} \<subseteq> S - {c}" "c' \<notin> S - {c}"
      "current (OrderedOutput_release ?st1) = of_nat c'"
      "written (OrderedOutput_release ?st1) = written ?st1 @ concat (map L [c + 1..<c'])"
      "set (held (OrderedOutput_release ?st1)) = (\<lambda>j. (of_nat j, L j)) ` {j \<in> S - {c}. c' \<le> j}"
      "distinct (map fst (held (OrderedOutput_release ?st1)))"
      by blast
    have up: "[c..<c'] = c # [c + 1..<c']" using c'(1) by (simp add: upt_conv_Cons)
    have s1: "{c..<c'} \<subseteq> S"
    proof
      fix x assume "x \<in> {c..<c'}"
      then have "x = c \<or> x \<in> {c + 1..<c'}" by auto
      then show "x \<in> S" using c'(3) True by auto
    qed
    have s2: "{j \<in> S - {c}. c' \<le> j} = {j \<in> S. c' \<le> j}" using c'(1) by auto
    have s3: "c' \<notin> S" using c'(4) c'(1) by auto
    have h': "set (held (OrderedOutput_release ?st1)) = (\<lambda>j. (of_nat j, L j)) ` {j \<in> S. c' \<le> j}"
      by (simp only: c'(7) s2)
    have w': "written (OrderedOutput_release ?st1) = written st @ concat (map L [c..<c'])"
      by (simp add: c'(6) up)
    have "c \<le> c'" using c'(1) by simp
    then show ?thesis
      using c'(2,5,8) s1 s3 h' w' unfolding unf by (intro exI [of _ c']) blast
  qed
qed

lemma push_length: "length (searchProject_push i chunks) = length chunks"
  by (induction i chunks rule: searchProject_push.induct) simp_all

lemma push_nth:
  "k < length chunks \<Longrightarrow>
   searchProject_push i chunks ! k = (i + of_nat k, fst (chunks ! k), snd (chunks ! k))"
proof (induction i chunks arbitrary: k rule: searchProject_push.induct)
  case (1 chunkIndex)
  then show ?case by simp
next
  case (2 chunkIndex fileCount' d chunks)
  then show ?case by (cases k) (simp_all add: add.assoc)
qed

lemma processChunk_chunkOutput:
  "chunkOutput re (fc, d) = Some ls \<Longrightarrow>
   processChunk re ci d (unat fc) st = Some (OrderedOutput_end (ci, ls) st)"
  by (auto simp: chunkOutput_def processChunk_def split: if_splits)

lemma runJobs_inv:
  fixes L :: "nat \<Rightarrow> OutputLine list"
  assumes n: "n \<le> 2 ^ 32" and len: "length jobs = n"
    and job: "\<And>k st. k < n \<Longrightarrow>
        (case jobs ! k of (ci, fc, d) \<Rightarrow> processChunk re ci d (unat fc) st) =
          Some (OrderedOutput_end (of_nat k, L k) st)"
  shows "distinct order \<Longrightarrow> set order \<subseteq> {0..<n} \<Longrightarrow> set order \<inter> D = {} \<Longrightarrow> D \<subseteq> {0..<n} \<Longrightarrow>
     c \<le> n \<Longrightarrow> {0..<c} \<subseteq> D \<Longrightarrow> c \<notin> D \<Longrightarrow> current st = of_nat c \<Longrightarrow>
     written st = concat (map L [0..<c]) \<Longrightarrow>
     set (held st) = (\<lambda>j. (of_nat j, L j)) ` {j \<in> D. c \<le> j} \<Longrightarrow>
     distinct (map fst (held st)) \<Longrightarrow>
     \<exists>st' c'. runJobs re jobs order st = Some st' \<and> c' \<le> n \<and> {0..<c'} \<subseteq> D \<union> set order \<and>
        c' \<notin> D \<union> set order \<and> written st' = concat (map L [0..<c'])"
proof (induction order arbitrary: D c st)
  case Nil
  then show ?case by (intro exI [of _ st] exI [of _ c]) simp
next
  case (Cons k order)
  have kn: "k < n" and kD: "k \<notin> D" using Cons.prems(2,3) by auto
  have kc: "c \<le> k"
  proof (rule ccontr)
    assume "\<not> c \<le> k"
    then have "k \<in> {0..<c}" by simp
    then show False using Cons.prems(6) kD by auto
  qed
  let ?S = "insert k {j \<in> D. c \<le> j}"
  let ?st1 = "st\<lparr>held := held st @ [(of_nat k, L k)]\<rparr>"
  have step: "runJobs re jobs (k # order) st =
      runJobs re jobs order (OrderedOutput_release ?st1)"
    using kn len job [OF kn, of st]
    by (auto simp: OrderedOutput_end_def split: prod.splits)
  have S: "?S \<subseteq> {c..<n}" using kn kc Cons.prems(4) by auto
  have h1: "set (held ?st1) = (\<lambda>j. (of_nat j, L j)) ` ?S"
    using Cons.prems(10) by auto
  have fresh: "(of_nat k :: 32 word) \<notin> fst ` set (held st)"
  proof
    assume "(of_nat k :: 32 word) \<in> fst ` set (held st)"
    then obtain j where j: "j \<in> D" "(of_nat j :: 32 word) = of_nat k"
      using Cons.prems(10) by force
    then have "j < 2 ^ 32" "k < 2 ^ 32" using Cons.prems(4) kn n by auto
    then have "j = k" using j(2) by (rule of_nat_inj_32)
    then show False using j(1) kD by simp
  qed
  have d1: "distinct (map fst (held ?st1))"
    using Cons.prems(11) fresh by simp
  have c1: "current ?st1 = of_nat c" using Cons.prems(8) by simp
  from release_inv [OF n Cons.prems(5) S h1 d1 c1] obtain c' where c':
    "c \<le> c'" "c' \<le> n" "{c..<c'} \<subseteq> ?S" "c' \<notin> ?S"
    "current (OrderedOutput_release ?st1) = of_nat c'"
    "written (OrderedOutput_release ?st1) = written ?st1 @ concat (map L [c..<c'])"
    "set (held (OrderedOutput_release ?st1)) = (\<lambda>j. (of_nat j, L j)) ` {j \<in> ?S. c' \<le> j}"
    "distinct (map fst (held (OrderedOutput_release ?st1)))"
    by blast
  let ?D = "insert k D"
  have a1: "distinct order" "set order \<subseteq> {0..<n}" "set order \<inter> ?D = {}" "?D \<subseteq> {0..<n}"
    using Cons.prems(1,2,3,4) kn by auto
  have a2: "{0..<c'} \<subseteq> ?D"
  proof
    fix x assume "x \<in> {0..<c'}"
    then have "x \<in> {0..<c} \<or> x \<in> {c..<c'}" by auto
    then show "x \<in> ?D" using Cons.prems(6) c'(3) by auto
  qed
  have a3: "c' \<notin> ?D" using c'(1,4) by auto
  have a4: "written (OrderedOutput_release ?st1) = concat (map L [0..<c'])"
  proof -
    have "[0..<c'] = [0..<c] @ [c..<c']"
      using c'(1) upt_add_eq_append [of 0 c "c' - c"] by simp
    then show ?thesis using c'(6) Cons.prems(9) by simp
  qed
  have a5: "set (held (OrderedOutput_release ?st1)) = (\<lambda>j. (of_nat j, L j)) ` {j \<in> ?D. c' \<le> j}"
  proof -
    have "{j \<in> ?S. c' \<le> j} = {j \<in> ?D. c' \<le> j}" using c'(1) by auto
    then show ?thesis by (simp only: c'(7))
  qed
  from Cons.IH [OF a1 c'(2) a2 a3 c'(5) a4 a5 c'(8)]
  obtain st' c'' where
    "runJobs re jobs order (OrderedOutput_release ?st1) = Some st'" "c'' \<le> n"
    "{0..<c''} \<subseteq> ?D \<union> set order" "c'' \<notin> ?D \<union> set order"
    "written st' = concat (map L [0..<c''])"
    by blast
  then show ?case
    unfolding step by (intro exI [of _ st'] exI [of _ c'']) auto
qed

text \<open>
  C3. The chunks of a data file are given indices from 0 in the order they are read.
  Whatever the order in which the workers finish them (every job once), and provided
  every chunk can be scanned, the terminal receives the output of chunk 0, then all of
  chunk 1, and so on in the order of the chunks in the file.
\<close>

theorem searchProject_output_in_chunk_order:
  assumes "length chunks \<le> 2 ^ 32"
    and "\<forall>c \<in> set chunks. chunkOutput re c \<noteq> None"
    and "distinct order" and "set order = {0..<length chunks}"
  shows "searchProject re chunks order =
           Some (concat (map (\<lambda>c. the (chunkOutput re c)) chunks))"
proof -
  let ?n = "length chunks"
  let ?jobs = "searchProject_push 0 chunks"
  let ?L = "\<lambda>k. the (chunkOutput re (chunks ! k))"
  have job: "(case ?jobs ! k of (ci, fc, d) \<Rightarrow> processChunk re ci d (unat fc) st) =
          Some (OrderedOutput_end (of_nat k, ?L k) st)" if "k < ?n" for k st
  proof -
    have "chunkOutput re (chunks ! k) \<noteq> None" using assms(2) that by simp
    then obtain ls where "chunkOutput re (fst (chunks ! k), snd (chunks ! k)) = Some ls" by auto
    then show ?thesis
      using processChunk_chunkOutput [of re "fst (chunks ! k)" "snd (chunks ! k)" ls]
      by (auto simp add: push_nth [OF that] split: prod.splits)
  qed
  have "\<exists>st' c'. runJobs re ?jobs order OrderedOutput_new = Some st' \<and> c' \<le> ?n \<and>
        {0..<c'} \<subseteq> {} \<union> set order \<and> c' \<notin> {} \<union> set order \<and>
        written st' = concat (map ?L [0..<c'])"
    by (rule runJobs_inv [OF assms(1) push_length job, where c = 0])
       (use assms(3,4) in \<open>simp_all add: OrderedOutput_new_def\<close>)
  then obtain st' c' where r: "runJobs re ?jobs order OrderedOutput_new = Some st'"
    "c' \<le> ?n" "c' \<notin> set order" "written st' = concat (map ?L [0..<c'])"
    by auto
  have "c' = ?n" using r(2,3) assms(4) by auto
  moreover have "map ?L [0..<?n] = map (\<lambda>c. the (chunkOutput re c)) chunks"
    by (intro nth_equalityI) simp_all
  ultimately show ?thesis using r(1,4) by (simp add: searchProject_def)
qed

theorem searchProject_output_in_chunk_order_witness:
  "searchProject (Regex_byte (CHR ''x''))
     [(1, \<lparr>headers = [\<lparr>nameOffset = 40, nameLength = 1, dataOffset = 41, dataSize = 2,
                         h_startLine = 0, h_reserved = 0, h_fileSize = 2, h_timeStamp = 0\<rparr>],
           nameBytes = ''a'', dataBytes = [CHR ''x'', LF]\<rparr>),
      (1, \<lparr>headers = [\<lparr>nameOffset = 40, nameLength = 1, dataOffset = 41, dataSize = 2,
                         h_startLine = 4, h_reserved = 0, h_fileSize = 9, h_timeStamp = 0\<rparr>],
           nameBytes = ''b'', dataBytes = [CHR ''a'', CHR ''x'']\<rparr>)] [1, 0] =
     Some [(''a'', \<lparr>m_match = (0, 1), m_line = 1, m_column = 1, m_text = (0, 1)\<rparr>),
          (''b'', \<lparr>m_match = (1, 1), m_line = 5, m_column = 2, m_text = (0, 2)\<rparr>)] \<and>
   chunkOutput (Regex_byte (CHR ''x''))
      (1, \<lparr>headers = [\<lparr>nameOffset = 40, nameLength = 1, dataOffset = 41, dataSize = 2,
                         h_startLine = 0, h_reserved = 0, h_fileSize = 2, h_timeStamp = 0\<rparr>],
           nameBytes = ''a'', dataBytes = [CHR ''x'', LF]\<rparr>) =
     Some [(''a'', \<lparr>m_match = (0, 1), m_line = 1, m_column = 1, m_text = (0, 1)\<rparr>)] \<and>
   chunkOutput (Regex_byte (CHR ''x''))
      (1, \<lparr>headers = [\<lparr>nameOffset = 40, nameLength = 1, dataOffset = 41, dataSize = 2,
                         h_startLine = 4, h_reserved = 0, h_fileSize = 9, h_timeStamp = 0\<rparr>],
           nameBytes = ''b'', dataBytes = [CHR ''a'', CHR ''x'']\<rparr>) =
     Some [(''b'', \<lparr>m_match = (1, 1), m_line = 5, m_column = 2, m_text = (0, 2)\<rparr>)]"
proof -
  let ?c0 = "(1, \<lparr>headers = [\<lparr>nameOffset = 40, nameLength = 1, dataOffset = 41, dataSize = 2,
                         h_startLine = 0, h_reserved = 0, h_fileSize = 2, h_timeStamp = 0\<rparr>],
           nameBytes = ''a'', dataBytes = [CHR ''x'', LF]\<rparr>) :: 32 word \<times> ChunkData"
  let ?c1 = "(1, \<lparr>headers = [\<lparr>nameOffset = 40, nameLength = 1, dataOffset = 41, dataSize = 2,
                         h_startLine = 4, h_reserved = 0, h_fileSize = 9, h_timeStamp = 0\<rparr>],
           nameBytes = ''b'', dataBytes = [CHR ''a'', CHR ''x'']\<rparr>) :: 32 word \<times> ChunkData"
  have o0: "chunkOutput (Regex_byte (CHR ''x'')) ?c0 =
      Some [(''a'', \<lparr>m_match = (0, 1), m_line = 1, m_column = 1, m_text = (0, 1)\<rparr>)]"
    by code_simp
  have o1: "chunkOutput (Regex_byte (CHR ''x'')) ?c1 =
      Some [(''b'', \<lparr>m_match = (1, 1), m_line = 5, m_column = 2, m_text = (0, 2)\<rparr>)]"
    by code_simp
  have h1: "length [?c0, ?c1] \<le> 2 ^ 32" by simp
  have h2: "\<forall>c \<in> set [?c0, ?c1]. chunkOutput (Regex_byte (CHR ''x'')) c \<noteq> None"
    using o0 o1 by simp
  have h3: "distinct [1, 0 :: nat]" by simp
  have h4: "set [1, 0 :: nat] = {0..<length [?c0, ?c1]}" by auto
  show ?thesis
    using searchProject_output_in_chunk_order [OF h1 h2 h3 h4] o0 o1 by simp
qed

section \<open>Properties of the number of hash iterations\<close>

text \<open>Two bounds on \<open>ln 2\<close>, from the series of the exponential.\<close>

lemma ln2_lower: "3 / 5 \<le> ln (2::real)"
proof -
  have "exp (3 / 10 :: real) \<le> 1 + 3 / 10 + (3 / 10)\<^sup>2"
    by (rule exp_bound) simp_all
  then have a: "exp (3 / 10 :: real) \<le> 139 / 100" by (simp add: power2_eq_square)
  have "exp (3 / 5 :: real) = exp (3 / 10) * exp (3 / 10)"
    by (simp flip: exp_add)
  also have "\<dots> \<le> (139 / 100) * (139 / 100)"
    using a by (intro mult_mono) simp_all
  also have "\<dots> \<le> 2" by simp
  finally have "exp (3 / 5 :: real) \<le> 2" .
  moreover have "(3 / 5 \<le> ln (2::real)) = (exp (3 / 5) \<le> (2::real))"
    by (rule ln_ge_iff) simp
  ultimately show ?thesis by blast
qed

lemma ln2_upper: "ln (2::real) < 4 / 5"
proof -
  have a: "(6 / 5 :: real) \<le> exp (1 / 5)"
    using exp_ge_add_one_self [of "1 / 5 :: real"] by simp
  have "(2::real) < (6 / 5) ^ 4" by (simp add: power4_eq_xxxx)
  also have "\<dots> \<le> exp (1 / 5) ^ 4"
    using a by (intro power_mono) simp_all
  also have "\<dots> = exp (4 / 5 :: real)"
    using exp_of_nat_mult [of 4 "1 / 5 :: real"] by simp
  finally have "exp (ln 2) < exp (4 / 5 :: real)" by simp
  then show ?thesis by (simp only: exp_less_cancel_iff)
qed

lemma hashIterations_spec_value: "hashIterations_spec 1250 4000 = 2"
proof -
  have e: "ln 2 * real (1250 * 8) / real 4000 = ln 2 * (5 / 2)" by simp
  have "3 / 2 \<le> ln 2 * (5 / 2 :: real)" using ln2_lower by simp
  moreover have "ln 2 * (5 / 2 :: real) < 2" using ln2_upper by simp
  ultimately have "round (ln 2 * (5 / 2 :: real)) = 2"
    by (simp add: round_def) linarith
  then show ?thesis
    unfolding hashIterations_spec_def e by simp
qed

text \<open>
  Evaluating the code for an index of 1250 bytes and 4000 keys, one rounding at a time:
  the literal, the two conversions, the product and the quotient
  \<open>7804143465161273 \<cdot> 2\<^sup>-\<^sup>5\<^sup>2\<close>, about 1.7329.
\<close>

lemmas double_eval =
  round_to_double_def scaled_floor_def scaled_round_def round_half_even_def Let_def

lemma ln2_literal_value: "ln2_literal = (6243314772129019, - 53)"
proof -
  have "bit_length 693147181 = 30" "bit_length 1000000000 = 30"
    by (simp_all add: bit_length.simps)
  then show ?thesis by (simp add: ln2_literal_def double_eval)
qed

lemma bit_length_1: "bit_length (Suc 0) = Suc 0"
  by (simp add: bit_length.simps)

lemma double_of_nat_1_value: "double_of_nat (Suc 0) = (4503599627370496, - 52)"
  by (simp add: double_of_nat_def double_eval bit_length_1)

lemma double_of_nat_16_value: "double_of_nat 16 = (4503599627370496, - 48)"
proof -
  have "bit_length 16 = 5" by (simp add: bit_length.simps)
  then show ?thesis by (simp add: double_of_nat_def double_eval bit_length_1)
qed

lemma getIndexHashIterations_value: "getIndexHashIterations 1250 4000 = 1"
proof -
  have m: "unat (1250 * 8 :: 32 word) = 10000" by simp
  have n: "unat (4000 :: 32 word) = 4000" by simp
  have d1: "double_of_nat 10000 = (5497558138880000, - 39)"
  proof -
    have "bit_length 10000 = 14" by (simp add: bit_length.simps)
    then show ?thesis by (simp add: double_of_nat_def double_eval bit_length_1)
  qed
  have d2: "double_of_nat 4000 = (8796093022208000, - 41)"
  proof -
    have "bit_length 4000 = 12" by (simp add: bit_length.simps)
    then show ?thesis by (simp add: double_of_nat_def double_eval bit_length_1)
  qed
  have d3: "double_mul ln2_literal (double_of_nat 10000) = (7621233852696556, - 40)"
  proof -
    have "bit_length 34322985939107620988880158720000 = 105" by (simp add: bit_length.simps)
    then show ?thesis
      by (simp add: double_mul_def ln2_literal_value d1 double_eval bit_length_1)
  qed
  have d4: "double_div (double_mul ln2_literal (double_of_nat 10000)) (double_of_nat 4000) =
      (7804143465161273, - 52)"
  proof -
    have "bit_length 7621233852696556 = 53" "bit_length 8796093022208000 = 53"
      by (simp_all add: bit_length.simps)
    then show ?thesis
      by (simp add: double_div_def d2 d3 double_eval)
  qed
  have l1: "\<not> double_less (7804143465161273, - 52) (double_of_nat 1)"
    by (simp add: double_less_def double_of_nat_1_value)
  have l2: "\<not> double_less (double_of_nat 16) (7804143465161273, - 52)"
    by (simp add: double_less_def double_of_nat_16_value)
  have t: "double_trunc (7804143465161273, - 52) = 1"
    by (simp add: double_trunc_def scaled_floor_def)
  show ?thesis
    by (simp add: getIndexHashIterations_def Let_def m n d4 l1 l2 t)
qed

lemma double_val_less:
  "double_less x y \<longleftrightarrow> double_val x < double_val y"
proof -
  obtain m1 e1 where x: "x = (m1, e1)" by (cases x)
  obtain m2 e2 where y: "y = (m2, e2)" by (cases y)
  define e where "e = min e1 e2"
  have p1: "(2::real) powi e1 = 2 ^ nat (e1 - e) * 2 powi e"
    using power_int_add [of "2::real" "e1 - e" e] by (simp add: e_def power_int_def)
  have p2: "(2::real) powi e2 = 2 ^ nat (e2 - e) * 2 powi e"
    using power_int_add [of "2::real" "e2 - e" e] by (simp add: e_def power_int_def)
  have pos: "(0::real) < 2 powi e" by simp
  have "double_val x < double_val y \<longleftrightarrow>
        real (m1 * 2 ^ nat (e1 - e)) * 2 powi e < real (m2 * 2 ^ nat (e2 - e)) * 2 powi e"
    by (simp add: double_val_def x y p1 p2 mult.assoc)
  also have "\<dots> \<longleftrightarrow> real (m1 * 2 ^ nat (e1 - e)) < real (m2 * 2 ^ nat (e2 - e))"
    using pos by (simp only: mult_less_cancel_right_pos)
  also have "\<dots> \<longleftrightarrow> m1 * 2 ^ nat (e1 - e) < m2 * 2 ^ nat (e2 - e)"
    by (simp only: of_nat_less_iff)
  finally show ?thesis
    by (simp add: double_less_def x y e_def Let_def)
qed

lemma double_val_trunc: "int (double_trunc x) = \<lfloor>double_val x\<rfloor>"
proof -
  obtain m e where x: "x = (m, e)" by (cases x)
  show ?thesis
  proof (cases "0 \<le> - e")
    case True
    then have "(2::real) powi e = inverse (2 ^ nat (- e))"
      by (simp add: power_int_def power_one_over inverse_eq_divide)
    then have "double_val x = real m / real (2 ^ nat (- e))"
      by (simp add: double_val_def x divide_inverse)
    then have "\<lfloor>double_val x\<rfloor> = int (m div 2 ^ nat (- e))"
      by (simp only: floor_divide_of_nat_eq)
    then show ?thesis using True by (simp add: double_trunc_def scaled_floor_def x)
  next
    case False
    then have "(2::real) powi e = 2 ^ nat e" by (simp add: power_int_def)
    then have "double_val x = real (m * 2 ^ nat e)" by (simp add: double_val_def x)
    then have "\<lfloor>double_val x\<rfloor> = int (m * 2 ^ nat e)" by (simp only: floor_of_nat)
    then show ?thesis using False by (simp add: double_trunc_def scaled_floor_def x)
  qed
qed

lemma double_of_nat_1: "double_val (double_of_nat (Suc 0)) = 1"
  by (simp add: double_of_nat_1_value double_val_def power_int_def power_one_over)

lemma double_of_nat_16: "double_val (double_of_nat 16) = 16"
  by (simp add: double_of_nat_16_value double_val_def power_int_def power_one_over)

text \<open>
  C6, as stated, at an index of 1250 bytes and 4000 keys: \<open>ln 2 \<cdot> 10000 / 4000\<close> is
  about 1.73 and rounds to 2, while the code returns 1.
\<close>

theorem hash_iterations_round_counterexample:
  "getIndexHashIterations 1250 4000 = 1 \<and> hashIterations_spec 1250 4000 = 2"
  by (simp add: getIndexHashIterations_value hashIterations_spec_value)

text \<open>
  C6, amended. The stored hash count is 1 for no keys, and otherwise the double
  \<open>0.693147181 \<cdot> m / n\<close>, with \<open>m = indexSize \<cdot> 8\<close> in 32-bit arithmetic, cut to its
  integer part (not rounded to the nearest integer) and clamped to the interval from 1
  to 16.
\<close>

theorem getIndexHashIterations_truncates:
  "getIndexHashIterations indexSize' itemCount =
     (if itemCount = 0 then 1
      else
        (let k = double_val (double_div (double_mul ln2_literal
                    (double_of_nat (unat (indexSize' * 8)))) (double_of_nat (unat itemCount)))
         in if k < 1 then 1 else if 16 < k then 16 else of_int \<lfloor>k\<rfloor>)) \<and>
   1 \<le> unat (getIndexHashIterations indexSize' itemCount) \<and>
   unat (getIndexHashIterations indexSize' itemCount) \<le> 16"
proof -
  define d where "d = (if itemCount = 0 then double_of_nat 1
     else double_div (double_mul ln2_literal (double_of_nat (unat (indexSize' * 8))))
            (double_of_nat (unat itemCount)))"
  define k where "k = double_val d"
  have g: "getIndexHashIterations indexSize' itemCount =
      (if k < 1 then 1 else if 16 < k then 16 else of_int \<lfloor>k\<rfloor>)"
  proof -
    have "(of_nat (double_trunc d) :: 32 word) = of_int (int (double_trunc d))"
      by simp
    then have "(of_nat (double_trunc d) :: 32 word) = of_int \<lfloor>k\<rfloor>"
      by (simp only: double_val_trunc k_def)
    then show ?thesis
      by (simp add: getIndexHashIterations_def Let_def d_def [symmetric] double_val_less
          double_of_nat_1 double_of_nat_16 k_def [symmetric])
  qed
  have k0: "itemCount = 0 \<Longrightarrow> k = 1"
    by (simp add: k_def d_def double_of_nat_1)
  have first: "getIndexHashIterations indexSize' itemCount =
     (if itemCount = 0 then 1
      else
        (let k = double_val (double_div (double_mul ln2_literal
                    (double_of_nat (unat (indexSize' * 8)))) (double_of_nat (unat itemCount)))
         in if k < 1 then 1 else if 16 < k then 16 else of_int \<lfloor>k\<rfloor>))"
  proof (cases "itemCount = 0")
    case True
    then show ?thesis using g k0 by simp
  next
    case False
    then show ?thesis using g by (simp add: k_def d_def Let_def)
  qed
  have range: "1 \<le> unat (getIndexHashIterations indexSize' itemCount) \<and>
      unat (getIndexHashIterations indexSize' itemCount) \<le> 16"
  proof (cases "k < 1 \<or> 16 < k")
    case True
    then show ?thesis using g by auto
  next
    case False
    then have b: "1 \<le> \<lfloor>k\<rfloor>" "\<lfloor>k\<rfloor> \<le> 16" by (simp_all add: le_floor_iff floor_le_iff)
    define j where "j = nat \<lfloor>k\<rfloor>"
    have j: "\<lfloor>k\<rfloor> = int j" "1 \<le> j" "j \<le> 16"
      using b unfolding j_def by linarith+
    have "unat (of_int \<lfloor>k\<rfloor> :: 32 word) = j"
      using j by (simp add: unat_of_nat)
    then show ?thesis using g False j by simp
  qed
  show ?thesis using first range by blast
qed

section \<open>Totality of line-aligned splitting\<close>

text \<open>
  Below \<open>2\<^sup>3\<^sup>1\<close> scanned bytes the narrowing in \<^verbatim>\<open>skipByLines\<close> loses nothing, and the
  position it returns lies in the scanned part; \<^verbatim>\<open>skipOneLine\<close> returns a position in
  the data, past its start when there are data.
\<close>

lemma scast_small:
  assumes "a < 2 ^ 31"
  shows "unat (scast (of_nat a :: 32 word) :: 64 word) = a"
proof -
  have "signed_take_bit 31 (int a) = int a"
    using assms by (intro signed_take_bit_int_eq_self) simp_all
  then have "(scast (of_nat a :: 32 word) :: 64 word) = of_nat a"
    by (simp add: signed_of_nat)
  moreover have "a < 2 ^ 64" using assms by (rule less_trans) simp
  ultimately show ?thesis by (simp add: unat_of_nat)
qed

lemma skipByLines_loop_pos:
  "\<exists>a'. fst (skipByLines_loop data n i (of_nat a, c)) = of_nat a' \<and> (a' = a \<or> (i < a' \<and> a' \<le> n))"
proof (induction data n i "(of_nat a :: 32 word, c)" arbitrary: a c rule: skipByLines_loop.induct)
  case (1 data dataSize i)
  show ?case
  proof (cases "i < dataSize")
    case False
    then show ?thesis by (subst skipByLines_loop.simps) auto
  next
    case True
    show ?thesis
    proof (cases "data ! i = LF")
      case T: True
      have "skipByLines_loop data dataSize i (of_nat a, c) =
            skipByLines_loop data dataSize (i + 1) (of_nat (i + 1), c + 1)"
        using True T by (subst skipByLines_loop.simps) simp
      moreover obtain a' where "fst (skipByLines_loop data dataSize (i + 1) (of_nat (i + 1), c + 1)) = of_nat a'"
        "a' = i + 1 \<or> (i + 1 < a' \<and> a' \<le> dataSize)"
        using "1.hyps" [OF True, of "i + 1" "c + 1"] T by auto
      ultimately show ?thesis using True by (intro exI [of _ a']) auto
    next
      case F: False
      have "skipByLines_loop data dataSize i (of_nat a, c) =
            skipByLines_loop data dataSize (i + 1) (of_nat a, c)"
        using True F by (subst skipByLines_loop.simps) simp
      moreover obtain a' where "fst (skipByLines_loop data dataSize (i + 1) (of_nat a, c)) = of_nat a'"
        "a' = a \<or> (i + 1 < a' \<and> a' \<le> dataSize)"
        using "1.hyps" [OF True, of a c] F by auto
      ultimately show ?thesis by (intro exI [of _ a']) auto
    qed
  qed
qed

lemma skipByLines_le:
  assumes "n < 2 ^ 31"
  shows "fst (skipByLines data n) \<le> n"
proof -
  obtain a' where a: "fst (skipByLines_loop data n 0 (of_nat 0, 0)) = of_nat a'" "a' = 0 \<or> (0 < a' \<and> a' \<le> n)"
    using skipByLines_loop_pos [of data n 0 0 0] by auto
  then have "a' < 2 ^ 31" using assms by auto
  then have "unat (scast (of_nat a' :: 32 word) :: 64 word) = a'" by (rule scast_small)
  then have "fst (skipByLines data n) = a'"
    using a(1) by (auto simp add: skipByLines_def split: prod.splits)
  then show ?thesis using a(2) by auto
qed

lemma skipOneLine_loop_bounds:
  "i \<le> n \<Longrightarrow> skipOneLine_loop data n i \<le> n \<and> i \<le> skipOneLine_loop data n i \<and>
     (i < n \<longrightarrow> i < skipOneLine_loop data n i)"
proof (induction data n i rule: skipOneLine_loop.induct)
  case (1 data dataSize i)
  show ?case
  proof (cases "i < dataSize")
    case False
    then have "skipOneLine_loop data dataSize i = dataSize" by (subst skipOneLine_loop.simps) simp
    then show ?thesis using "1.prems" False by simp
  next
    case True
    show ?thesis
    proof (cases "data ! i = LF")
      case T: True
      then have "skipOneLine_loop data dataSize i = i + 1" using True by (subst skipOneLine_loop.simps) simp
      then show ?thesis using True by simp
    next
      case F: False
      have e: "skipOneLine_loop data dataSize i = skipOneLine_loop data dataSize (i + 1)"
        using True F by (subst skipOneLine_loop.simps) simp
      show ?thesis using "1.IH" [OF True F] True unfolding e by auto
    qed
  qed
qed

lemma skipOneLine_bounds: "skipOneLine data n \<le> n \<and> (0 < n \<longrightarrow> 0 < skipOneLine data n)"
  using skipOneLine_loop_bounds [of 0 n data] by (simp add: skipOneLine_def)

section \<open>One step of \<^verbatim>\<open>flushChunk\<close> on a queue in order\<close>

text \<open>
  \<^verbatim>\<open>appendChunkFilePrefix\<close> either leaves a chunk that already holds a file as it is,
  or cuts a prefix of at least one byte off the file; it cuts where there is no line
  feed only when the chunk is empty, and then to the end of the first line.
\<close>

lemma skipByLines_pos_LF:
  assumes "0 < fst (skipByLines data n)"
  shows "\<exists>j < n. data ! j = LF"
proof (rule ccontr)
  assume "\<not> (\<exists>j < n. data ! j = LF)"
  then have "skipByLines data n = (0, 0)" by (intro skipByLines_no_LF) auto
  then show False using assms by simp
qed

lemma Blob_ok_prefix: "Blob_ok (contents f) \<Longrightarrow> k \<le> count (contents f) \<Longrightarrow> Blob_ok (contents (File_prefix f k))"
  by (simp add: Blob_ok_def File_prefix_def)

lemma Blob_ok_rest: "Blob_ok (contents f) \<Longrightarrow> k \<le> count (contents f) \<Longrightarrow> Blob_ok (contents (File_rest f k l))"
  by (simp add: Blob_ok_def File_rest_def)

lemma File_prefix_simps [simp]:
  "name (File_prefix f k) = name f" "count (contents (File_prefix f k)) = k"
  by (simp_all add: File_prefix_def)

lemma File_rest_simps [simp]:
  "name (File_rest f k l) = name f" "count (contents (File_rest f k l)) = count (contents f) - k"
  by (simp_all add: File_rest_def)

lemma File_prefix_whole: "File_prefix f (count (contents f)) = f"
  by (simp add: File_prefix_def)

lemma appendChunkFilePrefix_cases:
  assumes ok: "Blob_ok (contents f)" and r: "remaining < count (contents f)"
    and b: "remaining < 2 ^ 31"
  shows "(files chunk \<noteq> [] \<and> appendChunkFilePrefix chunk f remaining = Some (chunk, f)) \<or>
     (\<exists>k l. 0 < k \<and> k \<le> count (contents f) \<and>
        (LF \<in> set (Blob_bytes (contents f)) \<or>
         (files chunk = [] \<and>
          k = skipOneLine (drop (offset (contents f)) (storage (contents f))) (count (contents f)))) \<and>
        appendChunkFilePrefix chunk f remaining =
          Some (chunk\<lparr>totalSize := totalSize chunk + k,
                      files := files chunk @ [File_prefix f k]\<rparr>,
                File_rest f k l))"
proof -
  let ?data = "drop (offset (contents f)) (storage (contents f))"
  let ?n = "count (contents f)"
  let ?skip = "skipByLines ?data remaining"
  show ?thesis
  proof (cases "0 < fst ?skip")
    case True
    have le: "fst ?skip \<le> remaining" using b by (rule skipByLines_le)
    from skipByLines_pos_LF [OF True] obtain j where j: "j < remaining" "?data ! j = LF" by auto
    then have "Blob_bytes (contents f) ! j = LF" using Blob_bytes_nth [OF ok, of j] r by simp
    moreover have "j < length (Blob_bytes (contents f))" using j(1) r Blob_bytes_length [OF ok] by simp
    ultimately have lf: "LF \<in> set (Blob_bytes (contents f))" by (metis nth_mem)
    have "appendChunkFilePrefix chunk f remaining =
          Some (chunk\<lparr>totalSize := totalSize chunk + fst ?skip,
                      files := files chunk @ [File_prefix f (fst ?skip)]\<rparr>,
                File_rest f (fst ?skip) (snd ?skip))"
      using True r le
      by (simp add: appendChunkFilePrefix_def Blob_data_ok [OF ok] Blob_size_def splitPrefix_def
          Let_def File_prefix_def File_rest_def)
    then show ?thesis using True le r lf by (intro disjI2 exI [of _ "fst ?skip"] exI [of _ "snd ?skip"]) simp
  next
    case False
    show ?thesis
    proof (cases "files chunk = []")
      case F: False
      then show ?thesis using False r
        by (simp add: appendChunkFilePrefix_def Blob_data_ok [OF ok] Blob_size_def Let_def)
    next
      case True
      let ?k = "skipOneLine ?data ?n"
      have k: "?k \<le> ?n" "0 < ?k" using skipOneLine_bounds [of ?data ?n] r by auto
      have "appendChunkFilePrefix chunk f remaining =
          Some (chunk\<lparr>totalSize := totalSize chunk + ?k,
                      files := files chunk @ [File_prefix f ?k]\<rparr>,
                File_rest f ?k 1)"
        using False True r k
        by (simp add: appendChunkFilePrefix_def Blob_data_ok [OF ok] Blob_size_def splitPrefix_def
            Let_def File_prefix_def File_rest_def)
      then show ?thesis using k True by (intro disjI2 exI [of _ ?k] exI [of _ 1]) simp
    qed
  qed
qed

text \<open>
  The loop of \<^verbatim>\<open>flushChunk\<close> moves a run of whole files, each no longer than the
  chunk size, and then at most one prefix.
\<close>

lemma queuedBytes_simps [simp]:
  "queuedBytes [] = 0" "queuedBytes (f # fs) = count (contents f) + queuedBytes fs"
  "queuedBytes (xs @ ys) = queuedBytes xs + queuedBytes ys"
  by (simp_all add: queuedBytes_def)

lemma flushChunk_loop_shape:
  assumes "\<forall>f \<in> set pending. Blob_ok (contents f)" and sz: "sz < 2 ^ 31"
  shows "\<exists>taken rest. pending = taken @ rest \<and> (\<forall>f \<in> set taken. count (contents f) \<le> sz) \<and>
     ((flushChunk_loop sz chunk pending =
          Some (chunk\<lparr>totalSize := totalSize chunk + queuedBytes taken,
                      files := files chunk @ taken\<rparr>, rest) \<and>
       (rest = [] \<or> \<not> totalSize chunk + queuedBytes taken < sz \<or> files chunk @ taken \<noteq> [])) \<or>
      (\<exists>g rest' k l. rest = g # rest' \<and> 0 < k \<and> k \<le> count (contents g) \<and>
          (LF \<in> set (Blob_bytes (contents g)) \<or>
           (files chunk = [] \<and> taken = [] \<and>
            k = skipOneLine (drop (offset (contents g)) (storage (contents g))) (count (contents g)))) \<and>
          flushChunk_loop sz chunk pending =
            Some (chunk\<lparr>totalSize := totalSize chunk + queuedBytes taken + k,
                        files := files chunk @ taken @ [File_prefix g k]\<rparr>,
                  File_rest g k l # rest')))"
  using assms(1)
proof (induction pending arbitrary: chunk)
  case Nil
  show ?case by (intro exI [of _ "[]"]) simp
next
  case (Cons f pending)
  have okf: "Blob_ok (contents f)" and oks: "\<forall>f \<in> set pending. Blob_ok (contents f)"
    using Cons.prems by simp_all
  show ?case
  proof (cases "totalSize chunk < sz")
    case False
    then have e: "flushChunk_loop sz chunk (f # pending) = Some (chunk, f # pending)" by simp
    show ?thesis
      apply (rule exI [of _ "[]"], rule exI [of _ "f # pending"])
      using False by (simp add: e del: flushChunk_loop.simps)
  next
    case True
    let ?rem = "sz - totalSize chunk"
    show ?thesis
    proof (cases "count (contents f) \<le> ?rem")
      case fits: True
      let ?c1 = "appendChunkFile chunk f"
      have step: "flushChunk_loop sz chunk (f # pending) = flushChunk_loop sz ?c1 pending"
        using True fits by (simp add: Blob_size_def Let_def)
      have c1: "totalSize ?c1 = totalSize chunk + count (contents f)" "files ?c1 = files chunk @ [f]"
        by (simp_all add: appendChunkFile_def Blob_size_def)
      from Cons.IH [OF oks, of ?c1] obtain taken rest where
        tr: "pending = taken @ rest" "\<forall>f \<in> set taken. count (contents f) \<le> sz"
        and alt: "(flushChunk_loop sz ?c1 pending =
          Some (?c1\<lparr>totalSize := totalSize ?c1 + queuedBytes taken,
                      files := files ?c1 @ taken\<rparr>, rest) \<and>
           (rest = [] \<or> \<not> totalSize ?c1 + queuedBytes taken < sz \<or> files ?c1 @ taken \<noteq> [])) \<or>
          (\<exists>g rest' k l. rest = g # rest' \<and> 0 < k \<and> k \<le> count (contents g) \<and>
          (LF \<in> set (Blob_bytes (contents g)) \<or>
           (files ?c1 = [] \<and> taken = [] \<and>
            k = skipOneLine (drop (offset (contents g)) (storage (contents g))) (count (contents g)))) \<and>
          flushChunk_loop sz ?c1 pending =
            Some (?c1\<lparr>totalSize := totalSize ?c1 + queuedBytes taken + k,
                        files := files ?c1 @ taken @ [File_prefix g k]\<rparr>,
                  File_rest g k l # rest'))"
        by blast
      have e1: "?c1\<lparr>totalSize := totalSize ?c1 + queuedBytes taken, files := files ?c1 @ taken\<rparr> =
          chunk\<lparr>totalSize := totalSize chunk + queuedBytes (f # taken), files := files chunk @ f # taken\<rparr>"
        by (simp add: appendChunkFile_def Blob_size_def add.assoc)
      have e2: "?c1\<lparr>totalSize := totalSize ?c1 + queuedBytes taken + k,
                        files := files ?c1 @ taken @ [File_prefix g k]\<rparr> =
          chunk\<lparr>totalSize := totalSize chunk + queuedBytes (f # taken) + k,
                        files := files chunk @ (f # taken) @ [File_prefix g k]\<rparr>" for g k
        by (simp add: appendChunkFile_def Blob_size_def add.assoc)
      have fsz: "count (contents f) \<le> sz" using fits by simp
      show ?thesis
      proof (rule exI [of _ "f # taken"], rule exI [of _ rest], intro conjI)
        show "f # pending = (f # taken) @ rest" using tr(1) by simp
        show "\<forall>f \<in> set (f # taken). count (contents f) \<le> sz" using tr(2) fsz by simp
        show "(flushChunk_loop sz chunk (f # pending) =
          Some (chunk\<lparr>totalSize := totalSize chunk + queuedBytes (f # taken),
                      files := files chunk @ f # taken\<rparr>, rest) \<and>
           (rest = [] \<or> \<not> totalSize chunk + queuedBytes (f # taken) < sz \<or> files chunk @ f # taken \<noteq> [])) \<or>
          (\<exists>g rest' k l. rest = g # rest' \<and> 0 < k \<and> k \<le> count (contents g) \<and>
          (LF \<in> set (Blob_bytes (contents g)) \<or>
           (files chunk = [] \<and> f # taken = [] \<and>
            k = skipOneLine (drop (offset (contents g)) (storage (contents g))) (count (contents g)))) \<and>
          flushChunk_loop sz chunk (f # pending) =
            Some (chunk\<lparr>totalSize := totalSize chunk + queuedBytes (f # taken) + k,
                        files := files chunk @ (f # taken) @ [File_prefix g k]\<rparr>,
                  File_rest g k l # rest'))"
          using alt
        proof (rule disjE)
          assume a: "flushChunk_loop sz ?c1 pending =
            Some (?c1\<lparr>totalSize := totalSize ?c1 + queuedBytes taken, files := files ?c1 @ taken\<rparr>, rest) \<and>
            (rest = [] \<or> \<not> totalSize ?c1 + queuedBytes taken < sz \<or> files ?c1 @ taken \<noteq> [])"
          show ?thesis
            by (rule disjI1) (simp add: step a e1 del: flushChunk_loop.simps)
        next
          assume "\<exists>g rest' k l. rest = g # rest' \<and> 0 < k \<and> k \<le> count (contents g) \<and>
            (LF \<in> set (Blob_bytes (contents g)) \<or>
             (files ?c1 = [] \<and> taken = [] \<and>
              k = skipOneLine (drop (offset (contents g)) (storage (contents g))) (count (contents g)))) \<and>
            flushChunk_loop sz ?c1 pending =
              Some (?c1\<lparr>totalSize := totalSize ?c1 + queuedBytes taken + k,
                        files := files ?c1 @ taken @ [File_prefix g k]\<rparr>,
                  File_rest g k l # rest')"
          then obtain g rest' k l where a: "rest = g # rest'" "0 < k" "k \<le> count (contents g)"
            "LF \<in> set (Blob_bytes (contents g)) \<or>
              (files ?c1 = [] \<and> taken = [] \<and>
               k = skipOneLine (drop (offset (contents g)) (storage (contents g))) (count (contents g)))"
            "flushChunk_loop sz ?c1 pending =
              Some (?c1\<lparr>totalSize := totalSize ?c1 + queuedBytes taken + k,
                        files := files ?c1 @ taken @ [File_prefix g k]\<rparr>,
                  File_rest g k l # rest')"
            by blast
          have lf: "LF \<in> set (Blob_bytes (contents g))" using a(4) c1(2) by simp
          show ?thesis
            apply (rule disjI2)
            apply (rule exI [of _ g], rule exI [of _ rest'], rule exI [of _ k], rule exI [of _ l])
            using a(1,2,3) lf by (simp add: step a(5) e2 del: flushChunk_loop.simps)
        qed
      qed
    next
      case nofit: False
      then have r: "?rem < count (contents f)" by simp
      have b: "?rem < 2 ^ 31" using sz by simp
      have step: "flushChunk_loop sz chunk (f # pending) =
          (case appendChunkFilePrefix chunk f ?rem of
             None \<Rightarrow> None | Some (chunk', file') \<Rightarrow> Some (chunk', file' # pending))"
        using True nofit by (simp add: Blob_size_def Let_def)
      from appendChunkFilePrefix_cases [OF okf r b, of chunk]
      show ?thesis
      proof (rule disjE)
        assume a: "files chunk \<noteq> [] \<and> appendChunkFilePrefix chunk f ?rem = Some (chunk, f)"
        show ?thesis
          apply (rule exI [of _ "[]"], rule exI [of _ "f # pending"]) using a by (simp add: step del: flushChunk_loop.simps)
      next
        assume "\<exists>k l. 0 < k \<and> k \<le> count (contents f) \<and>
          (LF \<in> set (Blob_bytes (contents f)) \<or>
            (files chunk = [] \<and>
             k = skipOneLine (drop (offset (contents f)) (storage (contents f))) (count (contents f)))) \<and>
          appendChunkFilePrefix chunk f ?rem =
            Some (chunk\<lparr>totalSize := totalSize chunk + k, files := files chunk @ [File_prefix f k]\<rparr>,
                  File_rest f k l)"
        then obtain k l where a: "0 < k" "k \<le> count (contents f)"
          "LF \<in> set (Blob_bytes (contents f)) \<or>
            (files chunk = [] \<and>
             k = skipOneLine (drop (offset (contents f)) (storage (contents f))) (count (contents f)))"
          "appendChunkFilePrefix chunk f ?rem =
            Some (chunk\<lparr>totalSize := totalSize chunk + k, files := files chunk @ [File_prefix f k]\<rparr>,
                  File_rest f k l)"
          by blast
        show ?thesis
          apply (rule exI [of _ "[]"], rule exI [of _ "f # pending"])
          apply (intro conjI disjI2)
            apply simp
           apply simp
          apply (rule exI [of _ f], rule exI [of _ pending], rule exI [of _ k], rule exI [of _ l])
          using a(1,2,3) by (simp add: step a(4) del: flushChunk_loop.simps)
      qed
    qed
  qed
qed

lemma chunkFiles_append [simp]: "chunkFiles (a @ b) = chunkFiles a @ chunkFiles b"
  by (induction a rule: chunkFiles.induct) simp_all

lemma flushChunk_step:
  assumes ok: "queue_ok s" and sz: "sz < 2 ^ 31"
  shows "\<exists>taken rest s'. pendingFiles s = taken @ rest \<and>
     (\<forall>f \<in> set taken. count (contents f) \<le> sz) \<and> flushChunk sz s = Some s' \<and>
     ((pendingFiles s' = rest \<and> pendingSize s' = queuedBytes rest \<and>
       outData s' = outData s @
          (if taken = [] then [] else [Built \<lparr>files = taken, totalSize = queuedBytes taken\<rparr>]) \<and>
       (rest = [] \<or> sz = 0 \<or> taken \<noteq> [])) \<or>
      (\<exists>g rest' k l. rest = g # rest' \<and> 0 < k \<and> k \<le> count (contents g) \<and>
          (LF \<in> set (Blob_bytes (contents g)) \<or>
           (taken = [] \<and>
            k = skipOneLine (drop (offset (contents g)) (storage (contents g))) (count (contents g)))) \<and>
          pendingFiles s' = File_rest g k l # rest' \<and>
          pendingSize s' = queuedBytes (File_rest g k l # rest') \<and>
          outData s' = outData s @
            [Built \<lparr>files = taken @ [File_prefix g k], totalSize = queuedBytes taken + k\<rparr>]))"
proof -
  have oks: "\<forall>f \<in> set (pendingFiles s). Blob_ok (contents f)"
    and ps: "pendingSize s = queuedBytes (pendingFiles s)"
    using ok by (simp_all add: queue_ok_def)
  from flushChunk_loop_shape [OF oks sz, of Chunk_empty]
  obtain taken rest where tr: "pendingFiles s = taken @ rest"
    "\<forall>f \<in> set taken. count (contents f) \<le> sz"
    and raw: "(flushChunk_loop sz Chunk_empty (pendingFiles s) =
          Some (Chunk_empty\<lparr>totalSize := totalSize Chunk_empty + queuedBytes taken,
                      files := files Chunk_empty @ taken\<rparr>, rest) \<and>
       (rest = [] \<or> \<not> totalSize Chunk_empty + queuedBytes taken < sz \<or> files Chunk_empty @ taken \<noteq> [])) \<or>
      (\<exists>g rest' k l. rest = g # rest' \<and> 0 < k \<and> k \<le> count (contents g) \<and>
          (LF \<in> set (Blob_bytes (contents g)) \<or>
           (files Chunk_empty = [] \<and> taken = [] \<and>
            k = skipOneLine (drop (offset (contents g)) (storage (contents g))) (count (contents g)))) \<and>
          flushChunk_loop sz Chunk_empty (pendingFiles s) =
            Some (Chunk_empty\<lparr>totalSize := totalSize Chunk_empty + queuedBytes taken + k,
                        files := files Chunk_empty @ taken @ [File_prefix g k]\<rparr>,
                  File_rest g k l # rest'))"
    by blast
  have alt: "(flushChunk_loop sz Chunk_empty (pendingFiles s) =
          Some (\<lparr>files = taken, totalSize = queuedBytes taken\<rparr>, rest) \<and>
       (rest = [] \<or> \<not> queuedBytes taken < sz \<or> taken \<noteq> [])) \<or>
      (\<exists>g rest' k l. rest = g # rest' \<and> 0 < k \<and> k \<le> count (contents g) \<and>
          (LF \<in> set (Blob_bytes (contents g)) \<or>
           (taken = [] \<and>
            k = skipOneLine (drop (offset (contents g)) (storage (contents g))) (count (contents g)))) \<and>
          flushChunk_loop sz Chunk_empty (pendingFiles s) =
            Some (\<lparr>files = taken @ [File_prefix g k], totalSize = queuedBytes taken + k\<rparr>,
                  File_rest g k l # rest'))"
  proof -
    have e: "Chunk_empty\<lparr>totalSize := totalSize Chunk_empty + q, files := files Chunk_empty @ fs\<rparr> =
        \<lparr>files = fs, totalSize = q\<rparr>" "Chunk_empty\<lparr>totalSize := q, files := fs\<rparr> = \<lparr>files = fs, totalSize = q\<rparr>"
        "totalSize Chunk_empty = 0" "files Chunk_empty = []" for q fs
      by (simp_all add: Chunk_empty_def)
    show ?thesis using raw by (simp only: e add_0 append_Nil refl simp_thms)
  qed
  have okt: "\<forall>f \<in> set taken. Blob_ok (contents f)" using oks tr(1) by simp
  from alt show ?thesis
  proof (rule disjE)
    assume a: "flushChunk_loop sz Chunk_empty (pendingFiles s) =
          Some (\<lparr>files = taken, totalSize = queuedBytes taken\<rparr>, rest) \<and>
       (rest = [] \<or> \<not> queuedBytes taken < sz \<or> taken \<noteq> [])"
    let ?chunk = "\<lparr>files = taken, totalSize = queuedBytes taken\<rparr>"
    let ?s1 = "s\<lparr>pendingFiles := rest, pendingSize := pendingSize s - queuedBytes taken\<rparr>"
    have w: "flushChunk_chunk ?chunk ?s1 =
        Some (if taken = [] then ?s1 else ?s1\<lparr>outData := outData ?s1 @ [Built ?chunk]\<rparr>)"
      using okt flushChunk_chunk_ok [of ?chunk ?s1] by simp
    have f: "flushChunk sz s =
        Some (if taken = [] then ?s1 else ?s1\<lparr>outData := outData ?s1 @ [Built ?chunk]\<rparr>)"
      using a w by (simp add: flushChunk_def ps tr(1))
    have c: "rest = [] \<or> sz = 0 \<or> taken \<noteq> []"
      using a by (cases "taken = []") auto
    show ?thesis
      apply (rule exI [of _ taken], rule exI [of _ rest])
      apply (rule exI [of _ "if taken = [] then ?s1 else ?s1\<lparr>outData := outData ?s1 @ [Built ?chunk]\<rparr>"])
      using tr c by (simp add: f ps)
  next
    assume "\<exists>g rest' k l. rest = g # rest' \<and> 0 < k \<and> k \<le> count (contents g) \<and>
          (LF \<in> set (Blob_bytes (contents g)) \<or>
           (taken = [] \<and>
            k = skipOneLine (drop (offset (contents g)) (storage (contents g))) (count (contents g)))) \<and>
          flushChunk_loop sz Chunk_empty (pendingFiles s) =
            Some (\<lparr>files = taken @ [File_prefix g k], totalSize = queuedBytes taken + k\<rparr>,
                  File_rest g k l # rest')"
    then obtain g rest' k l where a: "rest = g # rest'" "0 < k" "k \<le> count (contents g)"
      "LF \<in> set (Blob_bytes (contents g)) \<or>
           (taken = [] \<and>
            k = skipOneLine (drop (offset (contents g)) (storage (contents g))) (count (contents g)))"
      "flushChunk_loop sz Chunk_empty (pendingFiles s) =
            Some (\<lparr>files = taken @ [File_prefix g k], totalSize = queuedBytes taken + k\<rparr>,
                  File_rest g k l # rest')"
      by blast
    let ?chunk = "\<lparr>files = taken @ [File_prefix g k], totalSize = queuedBytes taken + k\<rparr>"
    let ?s1 = "s\<lparr>pendingFiles := File_rest g k l # rest',
                  pendingSize := pendingSize s - (queuedBytes taken + k)\<rparr>"
    have okg: "Blob_ok (contents g)" using oks tr(1) a(1) by simp
    have "\<forall>f \<in> set (files ?chunk). Blob_ok (contents f)"
      using okt Blob_ok_prefix [OF okg a(3)] by simp
    then have w: "flushChunk_chunk ?chunk ?s1 = Some (?s1\<lparr>outData := outData ?s1 @ [Built ?chunk]\<rparr>)"
      by (subst flushChunk_chunk_ok) simp_all
    have f: "flushChunk sz s = Some (?s1\<lparr>outData := outData ?s1 @ [Built ?chunk]\<rparr>)"
      using a(3) w by (simp add: flushChunk_def ps tr(1) a(1) a(5) [unfolded tr(1) a(1)])
    show ?thesis
      apply (rule exI [of _ taken], rule exI [of _ rest])
      apply (rule exI [of _ "?s1\<lparr>outData := outData ?s1 @ [Built ?chunk]\<rparr>"])
      apply (intro conjI disjI2)
        apply (rule tr(1))
       apply (rule tr(2))
       apply (rule f)
      apply (rule exI [of _ g], rule exI [of _ rest'], rule exI [of _ k], rule exI [of _ l])
      using tr a(1,2,3,4) by (simp add: ps)
  qed
qed

section \<open>The stages of a file are kept\<close>

lemma split_after_prefix:
  assumes "xs @ t # ys = taken @ rest" and "t \<notin> set taken"
  shows "\<exists>zs. xs = taken @ zs \<and> rest = zs @ t # ys"
  using assms
proof (induction taken arbitrary: xs)
  case Nil
  then show ?case by simp
next
  case (Cons a taken)
  then show ?case by (cases xs) auto
qed

lemma no_record_step:
  assumes "no_record p s" and "outData s' = outData s @ new"
    and "\<forall>f \<in> set (chunkFiles new) \<union> set (pendingFiles s'). name f \<noteq> p"
  shows "no_record p s'"
  using assms by (auto simp: no_record_def)

lemma all_built_step:
  assumes "outData s' = outData s @ new" and "\<forall>r \<in> set new. \<exists>chunk. r = Built chunk"
  shows "all_built s \<longrightarrow> all_built s'"
  using assms by (auto simp: all_built_def)

lemma written_once_step:
  assumes w: "written_once tgt s" and o: "outData s' = outData s @ new"
    and n: "\<forall>f \<in> set (chunkFiles new) \<union> set (pendingFiles s').
              name f = name tgt \<longrightarrow> count (contents f) = 0"
  shows "written_once tgt s'"
proof -
  from w obtain before after where
    b: "outData s = before @ Built \<lparr>files = [tgt], totalSize = count (contents tgt)\<rparr> # after"
    and c: "\<forall>f \<in> set (chunkFiles (before @ after)). name f = name tgt \<longrightarrow> count (contents f) = 0"
    unfolding written_once_def by blast
  have "outData s' = before @ Built \<lparr>files = [tgt], totalSize = count (contents tgt)\<rparr> # (after @ new)"
    using o b by simp
  moreover have "\<forall>f \<in> set (chunkFiles (before @ (after @ new))).
      name f = name tgt \<longrightarrow> count (contents f) = 0"
    using c n by auto
  ultimately have "\<exists>before after.
        outData s' = before @ Built \<lparr>files = [tgt], totalSize = count (contents tgt)\<rparr> # after \<and>
        (\<forall>f \<in> set (chunkFiles (before @ after)).
           name f = name tgt \<longrightarrow> count (contents f) = 0)"
    by blast
  then show ?thesis using n unfolding written_once_def by simp
qed

lemma queued_whole_step:
  assumes q: "queued_whole tgt s" and o: "outData s' = outData s @ new"
    and n: "\<forall>f \<in> set (chunkFiles new). name f \<noteq> name tgt"
    and p: "pendingFiles s' = xs @ tgt # ys" "\<forall>f \<in> set xs \<union> set ys. name f \<noteq> name tgt"
  shows "queued_whole tgt s'"
proof -
  have "\<forall>f \<in> set (chunkFiles (outData s)). name f \<noteq> name tgt"
    using q unfolding queued_whole_def by blast
  then have "\<forall>f \<in> set (chunkFiles (outData s')). name f \<noteq> name tgt"
    using o n by auto
  then show ?thesis using p unfolding queued_whole_def by blast
qed

lemma written_once_pending:
  "written_once tgt s \<Longrightarrow> f \<in> set (pendingFiles s) \<Longrightarrow> name f = name tgt \<Longrightarrow>
   count (contents f) = 0"
  unfolding written_once_def by blast

lemma long_line_skipOneLine:
  assumes "long_line C tgt"
  shows "skipOneLine (drop (offset (contents tgt)) (storage (contents tgt))) (count (contents tgt)) =
     count (contents tgt)"
  using assms no_LF_nth [of "contents tgt"] unfolding long_line_def
  by (intro skipOneLine_no_LF) simp

lemma flushChunk_keeps:
  assumes ok: "queue_ok s" and sz: "0 < sz" "sz < 2 ^ 31" and ne: "pendingFiles s \<noteq> []"
    and ll: "long_line sz tgt"
  shows "\<exists>s'. flushChunk sz s = Some s' \<and> keeps tgt s s' \<and>
     pendingSize s' + length (pendingFiles s') < pendingSize s + length (pendingFiles s)"
proof -
  have oks: "\<forall>f \<in> set (pendingFiles s). Blob_ok (contents f)"
    and ps: "pendingSize s = queuedBytes (pendingFiles s)"
    using ok by (simp_all add: queue_ok_def)
  have big: "sz < count (contents tgt)" and nl: "LF \<notin> set (Blob_bytes (contents tgt))"
    using ll by (simp_all add: long_line_def)
  from flushChunk_step [OF ok sz(2)] obtain taken rest s' where
    tr: "pendingFiles s = taken @ rest" "\<forall>f \<in> set taken. count (contents f) \<le> sz"
    and f: "flushChunk sz s = Some s'"
    and alt: "(pendingFiles s' = rest \<and> pendingSize s' = queuedBytes rest \<and>
       outData s' = outData s @
          (if taken = [] then [] else [Built \<lparr>files = taken, totalSize = queuedBytes taken\<rparr>]) \<and>
       (rest = [] \<or> sz = 0 \<or> taken \<noteq> [])) \<or>
      (\<exists>g rest' k l. rest = g # rest' \<and> 0 < k \<and> k \<le> count (contents g) \<and>
          (LF \<in> set (Blob_bytes (contents g)) \<or>
           (taken = [] \<and>
            k = skipOneLine (drop (offset (contents g)) (storage (contents g))) (count (contents g)))) \<and>
          pendingFiles s' = File_rest g k l # rest' \<and>
          pendingSize s' = queuedBytes (File_rest g k l # rest') \<and>
          outData s' = outData s @
            [Built \<lparr>files = taken @ [File_prefix g k], totalSize = queuedBytes taken + k\<rparr>])"
    by blast
  have nt: "tgt \<notin> set taken" using tr(2) big by auto
  from alt have "keeps tgt s s' \<and>
     pendingSize s' + length (pendingFiles s') < pendingSize s + length (pendingFiles s)"
  proof (rule disjE)
    assume a: "pendingFiles s' = rest \<and> pendingSize s' = queuedBytes rest \<and>
       outData s' = outData s @
          (if taken = [] then [] else [Built \<lparr>files = taken, totalSize = queuedBytes taken\<rparr>]) \<and>
       (rest = [] \<or> sz = 0 \<or> taken \<noteq> [])"
    define new where "new = (if taken = [] then [] else [Built \<lparr>files = taken, totalSize = queuedBytes taken\<rparr>])"
    have o: "outData s' = outData s @ new" using a by (simp add: new_def)
    have cf: "chunkFiles new = taken" by (simp add: new_def)
    have p': "pendingFiles s' = rest" and sz': "pendingSize s' = queuedBytes rest" using a by simp_all
    have q: "queue_ok s'" using oks tr(1) p' sz' by (simp add: queue_ok_def)
    have nm: "name ` set (pendingFiles s') \<subseteq> name ` set (pendingFiles s)"
      using tr(1) p' by auto
    have nr: "no_record (name tgt) s \<longrightarrow> no_record (name tgt) s'"
    proof
      assume n: "no_record (name tgt) s"
      show "no_record (name tgt) s'"
      proof (rule no_record_step [OF n o])
        show "\<forall>f \<in> set (chunkFiles new) \<union> set (pendingFiles s'). name f \<noteq> name tgt"
          using n tr(1) p' cf by (auto simp: no_record_def)
      qed
    qed
    have pl: "placed tgt s \<longrightarrow> placed tgt s'"
    proof
      assume "placed tgt s"
      then show "placed tgt s'" unfolding placed_def
      proof (rule disjE)
        assume qw: "queued_whole tgt s"
        then obtain xs ys where xy: "pendingFiles s = xs @ tgt # ys"
          "\<forall>f \<in> set xs \<union> set ys. name f \<noteq> name tgt"
          unfolding queued_whole_def by blast
        from split_after_prefix [OF xy(1) [unfolded tr(1), symmetric] nt]
        obtain zs where zs: "xs = taken @ zs" "rest = zs @ tgt # ys" by blast
        have "queued_whole tgt s'"
        proof (rule queued_whole_step [OF qw o])
          show "\<forall>f \<in> set (chunkFiles new). name f \<noteq> name tgt" using cf xy(2) zs(1) by auto
          show "pendingFiles s' = zs @ tgt # ys" using p' zs(2) by simp
          show "\<forall>f \<in> set zs \<union> set ys. name f \<noteq> name tgt" using xy(2) zs(1) by auto
        qed
        then show "queued_whole tgt s' \<or> written_once tgt s'" by simp
      next
        assume w: "written_once tgt s"
        have "written_once tgt s'"
        proof (rule written_once_step [OF w o])
          show "\<forall>f \<in> set (chunkFiles new) \<union> set (pendingFiles s').
              name f = name tgt \<longrightarrow> count (contents f) = 0"
            using written_once_pending [OF w] tr(1) p' cf by auto
        qed
        then show "queued_whole tgt s' \<or> written_once tgt s'" by simp
      qed
    qed
    have ab: "all_built s \<longrightarrow> all_built s'"
      by (rule all_built_step [OF o]) (simp add: new_def)
    have tne: "taken \<noteq> []" using a sz(1) ne tr(1) by auto
    have m: "pendingSize s' + length (pendingFiles s') < pendingSize s + length (pendingFiles s)"
      using tne by (simp add: ps tr(1) p' sz')
    show ?thesis using q nm nr pl ab m by (simp add: keeps_def)
  next
    assume "\<exists>g rest' k l. rest = g # rest' \<and> 0 < k \<and> k \<le> count (contents g) \<and>
          (LF \<in> set (Blob_bytes (contents g)) \<or>
           (taken = [] \<and>
            k = skipOneLine (drop (offset (contents g)) (storage (contents g))) (count (contents g)))) \<and>
          pendingFiles s' = File_rest g k l # rest' \<and>
          pendingSize s' = queuedBytes (File_rest g k l # rest') \<and>
          outData s' = outData s @
            [Built \<lparr>files = taken @ [File_prefix g k], totalSize = queuedBytes taken + k\<rparr>]"
    then obtain g rest' k l where r: "rest = g # rest'" and k: "0 < k" "k \<le> count (contents g)"
      and lf: "LF \<in> set (Blob_bytes (contents g)) \<or>
           (taken = [] \<and>
            k = skipOneLine (drop (offset (contents g)) (storage (contents g))) (count (contents g)))"
      and p': "pendingFiles s' = File_rest g k l # rest'"
      and sz': "pendingSize s' = queuedBytes (File_rest g k l # rest')"
      and o: "outData s' = outData s @
            [Built \<lparr>files = taken @ [File_prefix g k], totalSize = queuedBytes taken + k\<rparr>]"
      by blast
    let ?new = "[Built \<lparr>files = taken @ [File_prefix g k], totalSize = queuedBytes taken + k\<rparr>]"
    have cf: "chunkFiles ?new = taken @ [File_prefix g k]" by simp
    have okg: "Blob_ok (contents g)" using oks tr(1) r by simp
    have q: "queue_ok s'"
      using oks tr(1) r p' sz' Blob_ok_rest [OF okg k(2)] by (simp add: queue_ok_def)
    have nm: "name ` set (pendingFiles s') \<subseteq> name ` set (pendingFiles s)"
      using tr(1) r p' by auto
    have nr: "no_record (name tgt) s \<longrightarrow> no_record (name tgt) s'"
    proof
      assume n: "no_record (name tgt) s"
      show "no_record (name tgt) s'"
      proof (rule no_record_step [OF n o])
        show "\<forall>f \<in> set (chunkFiles ?new) \<union> set (pendingFiles s'). name f \<noteq> name tgt"
          using n tr(1) r p' by (auto simp: no_record_def)
      qed
    qed
    have pl: "placed tgt s \<longrightarrow> placed tgt s'"
    proof
      assume "placed tgt s"
      then show "placed tgt s'" unfolding placed_def
      proof (rule disjE)
        assume qw: "queued_whole tgt s"
        then obtain xs ys where xy: "pendingFiles s = xs @ tgt # ys"
          "\<forall>f \<in> set xs \<union> set ys. name f \<noteq> name tgt"
          and old: "\<forall>f \<in> set (chunkFiles (outData s)). name f \<noteq> name tgt"
          unfolding queued_whole_def by blast
        from split_after_prefix [OF xy(1) [unfolded tr(1), symmetric] nt]
        obtain zs where zs: "xs = taken @ zs" "rest = zs @ tgt # ys" by blast
        show "queued_whole tgt s' \<or> written_once tgt s'"
        proof (cases zs)
          case Nil
          then have g: "g = tgt" "rest' = ys" using zs(2) r by simp_all
          have t0: "taken = []" and kk: "k = count (contents tgt)"
            using lf nl long_line_skipOneLine [OF ll] by (auto simp: g)
          have xs0: "xs = []" using zs(1) Nil t0 by simp
          have o': "outData s' = outData s @
              Built \<lparr>files = [tgt], totalSize = count (contents tgt)\<rparr> # []"
            using o by (simp add: t0 kk g File_prefix_whole)
          have c1: "\<forall>f \<in> set (chunkFiles (outData s @ [])).
              name f = name tgt \<longrightarrow> count (contents f) = 0"
            using old by simp
          have c2: "\<forall>f \<in> set (pendingFiles s'). name f = name tgt \<longrightarrow> count (contents f) = 0"
            using p' xy(2) by (auto simp: g kk)
          have "written_once tgt s'"
            unfolding written_once_def using o' c1 c2 by blast
          then show ?thesis by simp
        next
          case (Cons z zs')
          then have g: "g = z" "rest' = zs' @ tgt # ys" using zs(2) r by simp_all
          have ng: "name g \<noteq> name tgt" using xy(2) zs(1) Cons g by simp
          have "queued_whole tgt s'"
          proof (rule queued_whole_step [OF qw o])
            show "\<forall>f \<in> set (chunkFiles ?new). name f \<noteq> name tgt"
              using xy(2) zs(1) ng by auto
            show "pendingFiles s' = (File_rest g k l # zs') @ tgt # ys" using p' g by simp
            show "\<forall>f \<in> set (File_rest g k l # zs') \<union> set ys. name f \<noteq> name tgt"
              using xy(2) zs(1) Cons ng by auto
          qed
          then show ?thesis by simp
        qed
      next
        assume w: "written_once tgt s"
        have gp: "g \<in> set (pendingFiles s)" using tr(1) r by simp
        have ng: "name g \<noteq> name tgt"
          using written_once_pending [OF w gp] k by auto
        have "written_once tgt s'"
        proof (rule written_once_step [OF w o])
          show "\<forall>f \<in> set (chunkFiles ?new) \<union> set (pendingFiles s').
              name f = name tgt \<longrightarrow> count (contents f) = 0"
            using written_once_pending [OF w] tr(1) r p' ng by auto
        qed
        then show "queued_whole tgt s' \<or> written_once tgt s'" by simp
      qed
    qed
    have ab: "all_built s \<longrightarrow> all_built s'"
      by (rule all_built_step [OF o]) simp
    have m: "pendingSize s' + length (pendingFiles s') < pendingSize s + length (pendingFiles s)"
      using k by (simp add: ps tr(1) r p' sz')
    show ?thesis using q nm nr pl ab m by (simp add: keeps_def)
  qed
  then show ?thesis using f by simp
qed

text \<open>
  Both loops around \<^verbatim>\<open>flushChunk(kChunkSize)\<close> return on a queue in order: every
  call removes a file from the queue or bytes from a file.
\<close>

lemma keeps_refl: "queue_ok s \<Longrightarrow> keeps tgt s s"
  by (simp add: keeps_def)

lemma keeps_trans: "keeps tgt s s1 \<Longrightarrow> keeps tgt s1 s2 \<Longrightarrow> keeps tgt s s2"
  unfolding keeps_def by blast

lemma queue_ok_pending: "queue_ok s \<Longrightarrow> 0 < pendingSize s \<Longrightarrow> pendingFiles s \<noteq> []"
  by (auto simp: queue_ok_def)

lemma flush_keeps:
  assumes C: "0 < C" "C < 2 ^ 31" and ll: "long_line C tgt"
  shows "queue_ok s \<Longrightarrow> \<exists>s'. flush C s = Some s' \<and> keeps tgt s s' \<and> pendingSize s' = 0"
proof (induction "pendingSize s + length (pendingFiles s)" arbitrary: s rule: less_induct)
  case less
  show ?case
  proof (cases "0 < pendingSize s")
    case False
    then show ?thesis using less.prems by (subst flush.simps) (simp add: keeps_refl)
  next
    case True
    from flushChunk_keeps [OF less.prems C queue_ok_pending [OF less.prems True] ll]
    obtain s1 where s1: "flushChunk C s = Some s1" "keeps tgt s s1"
      "pendingSize s1 + length (pendingFiles s1) < pendingSize s + length (pendingFiles s)"
      by blast
    have q1: "queue_ok s1" using s1(2) by (simp add: keeps_def)
    from less.hyps [OF s1(3) q1] obtain s' where
      s': "flush C s1 = Some s'" "keeps tgt s1 s'" "pendingSize s' = 0"
      by blast
    have "flush C s = Some s'"
      using True s1(1) s'(1) by (subst flush.simps) simp
    then show ?thesis using keeps_trans [OF s1(2) s'(2)] s'(3) by simp
  qed
qed

lemma flushIfNeeded_keeps:
  assumes C: "0 < C" "C < 2 ^ 31" and ll: "long_line C tgt"
  shows "queue_ok s \<Longrightarrow> \<exists>s'. flushIfNeeded C s = Some s' \<and> keeps tgt s s'"
proof (induction "pendingSize s + length (pendingFiles s)" arbitrary: s rule: less_induct)
  case less
  show ?case
  proof (cases "C * 2 \<le> pendingSize s")
    case False
    then show ?thesis using less.prems by (subst flushIfNeeded.simps) (simp add: keeps_refl)
  next
    case True
    then have pos: "0 < pendingSize s" using C(1) by simp
    from flushChunk_keeps [OF less.prems C queue_ok_pending [OF less.prems pos] ll]
    obtain s1 where s1: "flushChunk C s = Some s1" "keeps tgt s s1"
      "pendingSize s1 + length (pendingFiles s1) < pendingSize s + length (pendingFiles s)"
      by blast
    have q1: "queue_ok s1" using s1(2) by (simp add: keeps_def)
    from less.hyps [OF s1(3) q1] obtain s' where
      s': "flushIfNeeded C s1 = Some s'" "keeps tgt s1 s'"
      by blast
    have "flushIfNeeded C s = Some s'"
      using True s1(1) s'(1) by (subst flushIfNeeded.simps) simp
    then show ?thesis using keeps_trans [OF s1(2) s'(2)] by simp
  qed
qed

lemma appendFile_keeps:
  assumes C: "0 < C" "C < 2 ^ 31" and ll: "long_line C tgt"
    and ok: "queue_ok s" and fresh: "path \<notin> name ` set (pendingFiles s)"
  shows "\<exists>s'. appendFile C path data t z s = Some s' \<and> queue_ok s' \<and>
     name ` set (pendingFiles s') \<subseteq> insert path (name ` set (pendingFiles s)) \<and>
     (all_built s \<longrightarrow> all_built s') \<and>
     (name tgt \<noteq> path \<longrightarrow>
        (no_record (name tgt) s \<longrightarrow> no_record (name tgt) s') \<and>
        (placed tgt s \<longrightarrow> placed tgt s')) \<and>
     (tgt = File_new path 0 data t z \<longrightarrow> no_record path s \<longrightarrow> placed tgt s')"
proof -
  let ?new = "File_new path 0 data t z"
  let ?s0 = "s\<lparr>pendingFiles := pendingFiles s @ [?new],
               pendingSize := pendingSize s + length data\<rparr>"
  have nn: "name ?new = path" "count (contents ?new) = length data" "Blob_ok (contents ?new)"
    by (simp_all add: File_new_def Blob_of_def Blob_ok_def)
  have br: "\<not> (pendingFiles s \<noteq> [] \<and> name (last (pendingFiles s)) = path)"
    using fresh by (auto dest: last_in_set)
  have app: "appendFile C path data t z s = flushIfNeeded C ?s0"
    using br by (auto simp: appendFile_def appendFilePart_def Let_def)
  have q0: "queue_ok ?s0" using ok nn by (simp add: queue_ok_def)
  from flushIfNeeded_keeps [OF C ll q0] obtain s' where
    s': "flushIfNeeded C ?s0 = Some s'" "keeps tgt ?s0 s'"
    by blast
  have k: "queue_ok s'" "name ` set (pendingFiles s') \<subseteq> name ` set (pendingFiles ?s0)"
    "no_record (name tgt) ?s0 \<longrightarrow> no_record (name tgt) s'"
    "placed tgt ?s0 \<longrightarrow> placed tgt s'" "all_built ?s0 \<longrightarrow> all_built s'"
    using s'(2) by (simp_all add: keeps_def)
  have nm: "name ` set (pendingFiles s') \<subseteq> insert path (name ` set (pendingFiles s))"
    using k(2) nn(1) by auto
  have ab: "all_built s \<longrightarrow> all_built s'" using k(5) by (simp add: all_built_def)
  have other: "(no_record (name tgt) s \<longrightarrow> no_record (name tgt) s') \<and>
        (placed tgt s \<longrightarrow> placed tgt s')" if d: "name tgt \<noteq> path"
  proof
    have "no_record (name tgt) s \<Longrightarrow> no_record (name tgt) ?s0"
      using d nn(1) by (auto simp: no_record_def)
    then show "no_record (name tgt) s \<longrightarrow> no_record (name tgt) s'" using k(3) by blast
    have "placed tgt ?s0" if pl: "placed tgt s"
      using pl unfolding placed_def
    proof (rule disjE)
      assume qw: "queued_whole tgt s"
      then obtain xs ys where xy: "pendingFiles s = xs @ tgt # ys"
          "\<forall>f \<in> set xs \<union> set ys. name f \<noteq> name tgt"
        unfolding queued_whole_def by blast
      have "queued_whole tgt ?s0"
      proof (rule queued_whole_step [OF qw, of _ "[]"])
        show "outData ?s0 = outData s @ []" by simp
        show "\<forall>f \<in> set (chunkFiles []). name f \<noteq> name tgt" by simp
        show "pendingFiles ?s0 = xs @ tgt # (ys @ [?new])" using xy(1) by simp
        show "\<forall>f \<in> set xs \<union> set (ys @ [?new]). name f \<noteq> name tgt"
          using xy(2) d nn(1) by auto
      qed
      then show "queued_whole tgt ?s0 \<or> written_once tgt ?s0" by simp
    next
      assume w: "written_once tgt s"
      have "written_once tgt ?s0"
      proof (rule written_once_step [OF w, of _ "[]"])
        show "outData ?s0 = outData s @ []" by simp
        show "\<forall>f \<in> set (chunkFiles []) \<union> set (pendingFiles ?s0).
            name f = name tgt \<longrightarrow> count (contents f) = 0"
          using written_once_pending [OF w] d nn(1) by auto
      qed
      then show "queued_whole tgt ?s0 \<or> written_once tgt ?s0" by simp
    qed
    then show "placed tgt s \<longrightarrow> placed tgt s'" using k(4) by blast
  qed
  have self: "placed tgt s'" if e: "tgt = ?new" and n: "no_record path s"
  proof -
    have "pendingFiles ?s0 = pendingFiles s @ tgt # []" by (simp add: e)
    moreover have "\<forall>f \<in> set (pendingFiles s) \<union> set []. name f \<noteq> name tgt"
      using n by (simp add: e nn(1) no_record_def)
    moreover have "\<forall>f \<in> set (chunkFiles (outData ?s0)). name f \<noteq> name tgt"
      using n by (simp add: e nn(1) no_record_def)
    ultimately have "queued_whole tgt ?s0" unfolding queued_whole_def by blast
    then show ?thesis using k(4) by (simp add: placed_def)
  qed
  show ?thesis
    using app s'(1) k(1) nm ab other self by simp
qed

lemma buildProject_loop_append:
  "buildProject_loop C (xs @ ys) s =
     (case buildProject_loop C xs s of None \<Rightarrow> None | Some s' \<Rightarrow> buildProject_loop C ys s')"
  by (induction xs arbitrary: s) (auto split: option.splits)

lemma buildProject_loop_keeps:
  assumes C: "0 < C" "C < 2 ^ 31" and ll: "long_line C tgt"
  shows "queue_ok s \<Longrightarrow> distinct (map fst fs) \<Longrightarrow>
     \<forall>f \<in> set (pendingFiles s). name f \<notin> fst ` set fs \<Longrightarrow> name tgt \<notin> fst ` set fs \<Longrightarrow>
     \<exists>s'. buildProject_loop C fs s = Some s' \<and> queue_ok s' \<and>
       name ` set (pendingFiles s') \<subseteq> name ` set (pendingFiles s) \<union> fst ` set fs \<and>
       (all_built s \<longrightarrow> all_built s') \<and>
       (no_record (name tgt) s \<longrightarrow> no_record (name tgt) s') \<and>
       (placed tgt s \<longrightarrow> placed tgt s')"
proof (induction fs arbitrary: s)
  case Nil
  then show ?case by simp
next
  case (Cons x fs)
  obtain path data t z where x: "x = (path, data, t, z)" by (cases x)
  have fresh: "path \<notin> name ` set (pendingFiles s)" using Cons.prems(3) x by force
  have d: "name tgt \<noteq> path" using Cons.prems(4) x by auto
  from appendFile_keeps [OF C ll Cons.prems(1) fresh, of data t z] d obtain s1 where
    s1: "appendFile C path data t z s = Some s1" "queue_ok s1"
      "name ` set (pendingFiles s1) \<subseteq> insert path (name ` set (pendingFiles s))"
      "all_built s \<longrightarrow> all_built s1"
      "no_record (name tgt) s \<longrightarrow> no_record (name tgt) s1" "placed tgt s \<longrightarrow> placed tgt s1"
    by blast
  have a: "distinct (map fst fs)" using Cons.prems(2) by simp
  have b: "\<forall>f \<in> set (pendingFiles s1). name f \<notin> fst ` set fs"
  proof
    fix f assume "f \<in> set (pendingFiles s1)"
    then have "name f = path \<or> name f \<in> name ` set (pendingFiles s)" using s1(3) by auto
    then show "name f \<notin> fst ` set fs"
    proof
      assume "name f = path"
      then show ?thesis using Cons.prems(2) x by auto
    next
      assume "name f \<in> name ` set (pendingFiles s)"
      then obtain g where g: "g \<in> set (pendingFiles s)" "name f = name g" by auto
      then have "name g \<notin> fst ` set (x # fs)" using Cons.prems(3) by blast
      then show ?thesis using g(2) by simp
    qed
  qed
  have c: "name tgt \<notin> fst ` set fs" using Cons.prems(4) by simp
  from Cons.IH [OF s1(2) a b c] obtain s' where
    s': "buildProject_loop C fs s1 = Some s'" "queue_ok s'"
      "name ` set (pendingFiles s') \<subseteq> name ` set (pendingFiles s1) \<union> fst ` set fs"
      "all_built s1 \<longrightarrow> all_built s'"
      "no_record (name tgt) s1 \<longrightarrow> no_record (name tgt) s'" "placed tgt s1 \<longrightarrow> placed tgt s'"
    by blast
  have nm: "name ` set (pendingFiles s') \<subseteq> name ` set (pendingFiles s) \<union> fst ` set (x # fs)"
    using s'(3) s1(3) x by auto
  have "buildProject_loop C (x # fs) s = Some s'"
    using s1(1) s'(1) x by simp
  then show ?case using s'(2) nm s1(4,5,6) s'(4,5,6) by blast
qed

section \<open>A long line in any project\<close>

lemma long_line_payload:
  "map_option (\<lambda>(cd, off). (ChunkData_size cd, dataBytes cd))
     (prepareChunkData \<lparr>files = [File_new p 0 d t z], totalSize = length d\<rparr>) =
   Some (40 + length p + length d, d)"
  by (simp add: prepareChunkData_def getChunkNameTotalSize_def getChunkDataTotalSize_def
      File_new_def Blob_of_def Blob_data_def Blob_size_def ChunkData_size_def Let_def)

lemma queued_whole_bytes:
  assumes "queued_whole tgt s" and "queue_ok s"
  shows "count (contents tgt) \<le> pendingSize s"
proof -
  from assms(1) obtain xs ys where "pendingFiles s = xs @ tgt # ys"
    unfolding queued_whole_def by blast
  then show ?thesis using assms(2) by (simp add: queue_ok_def)
qed

lemma buildProject_long_line:
  assumes C: "0 < C" "C < 2 ^ 31"
    and dist: "distinct (map fst fs)"
    and mem: "(p, d, t, z) \<in> set fs"
    and nl: "LF \<notin> set d" and len: "C < length d"
  shows "\<exists>s. buildProject C fs = Some s \<and> written_once (File_new p 0 d t z) s \<and> all_built s"
proof -
  let ?tgt = "File_new p 0 d t z"
  have nn: "name ?tgt = p" "count (contents ?tgt) = length d"
    by (simp_all add: File_new_def Blob_of_def)
  have ll: "long_line C ?tgt"
    using nl len nn(2) by (simp add: long_line_def File_new_def)
  from mem obtain pre post where fs: "fs = pre @ (p, d, t, z) # post"
    by (auto dest: split_list)
  have d1: "distinct (map fst pre)" "distinct (map fst post)"
    and p1: "p \<notin> fst ` set pre" "p \<notin> fst ` set post"
    and dj: "fst ` set pre \<inter> fst ` set post = {}"
    using dist by (auto simp: fs)
  have q0: "queue_ok BuilderImpl_new" by (simp add: queue_ok_def BuilderImpl_new_def)
  have e0: "\<forall>f \<in> set (pendingFiles BuilderImpl_new). name f \<notin> fst ` set pre"
    by (simp add: BuilderImpl_new_def)
  have n0: "no_record (name ?tgt) BuilderImpl_new" by (simp add: no_record_def BuilderImpl_new_def)
  have a0: "all_built BuilderImpl_new" by (simp add: all_built_def BuilderImpl_new_def)
  from buildProject_loop_keeps [OF C ll q0 d1(1) e0] p1(1) n0 a0 obtain s1 where
    s1: "buildProject_loop C pre BuilderImpl_new = Some s1" "queue_ok s1"
      "name ` set (pendingFiles s1) \<subseteq> name ` set (pendingFiles BuilderImpl_new) \<union> fst ` set pre"
      "all_built s1" "no_record p s1"
    by (auto simp: nn(1))
  have nm1: "name ` set (pendingFiles s1) \<subseteq> fst ` set pre"
    using s1(3) by (simp add: BuilderImpl_new_def)
  have fresh: "p \<notin> name ` set (pendingFiles s1)" using nm1 p1(1) by blast
  from appendFile_keeps [OF C ll s1(2) fresh, of d t z] s1(4,5) obtain s2 where
    s2: "appendFile C p d t z s1 = Some s2" "queue_ok s2"
      "name ` set (pendingFiles s2) \<subseteq> insert p (name ` set (pendingFiles s1))"
      "all_built s2" "placed ?tgt s2"
    by blast
  have e2: "\<forall>f \<in> set (pendingFiles s2). name f \<notin> fst ` set post"
  proof
    fix f assume "f \<in> set (pendingFiles s2)"
    then have "name f = p \<or> name f \<in> fst ` set pre" using s2(3) nm1 by auto
    then show "name f \<notin> fst ` set post" using p1(2) dj by auto
  qed
  from buildProject_loop_keeps [OF C ll s2(2) d1(2) e2] p1(2) s2(4,5) obtain s3 where
    s3: "buildProject_loop C post s2 = Some s3" "queue_ok s3" "all_built s3" "placed ?tgt s3"
    by (auto simp: nn(1))
  from flush_keeps [OF C ll s3(2)] obtain s4 where
    s4: "flush C s3 = Some s4" "keeps ?tgt s3 s4" "pendingSize s4 = 0"
    by blast
  have k4: "queue_ok s4" "placed ?tgt s4" "all_built s4"
    using s4(2) s3(3,4) by (simp_all add: keeps_def)
  have "\<not> queued_whole ?tgt s4"
    using queued_whole_bytes [OF _ k4(1), of ?tgt] s4(3) len nn(2) by auto
  then have w: "written_once ?tgt s4" using k4(2) by (simp add: placed_def)
  have "buildProject_loop C fs BuilderImpl_new = Some s3"
    using s1(1) s2(1) s3(1) by (simp add: fs buildProject_loop_append)
  then have "buildProject C fs = Some s4" using s4(1) by (simp add: buildProject_def)
  then show ?thesis using w k4(3) by simp
qed


text \<open>
  A project of three files and a chunk size of 4 bytes: the line of 13 bytes is not cut
  behind \<^verbatim>\<open>p.txt\<close>, whose chunk is closed at 2 bytes; it is written whole in a chunk
  of its own.
\<close>

lemma long_line_between_files:
  "map_option (\<lambda>s. map (map (\<lambda>h. (dataSize h, h_startLine h))) (builtHeaders (outData s)))
     (buildProject 4 [(''p.txt'', ''pp'', 0, 2), (''a.txt'', replicate 13 (CHR ''a''), 0, 13),
                      (''q.txt'', ''qq'', 0, 2)]) =
   Some [[(2, 0)], [(13, 0)], [(0, 1), (2, 0)]]"
  by code_simp

text \<open>
  C2, amended: in a project of files with distinct paths, built with a chunk size
  \<open>C\<close> between 1 and \<open>2\<^sup>3\<^sup>1 - 1\<close>, every file without a line feed that is longer than
  \<open>C\<close> is written as the single record of one chunk, whole; every other record under
  its path, in any chunk, has no bytes. The contents of that chunk are the 40 bytes of
  the file header, the path and the line: more than \<open>C\<close>, and bounded by the length of
  the line only.
\<close>

theorem long_line_one_chunk:
  assumes "0 < C" and "C < 2 ^ 31"
    and "distinct (map fst fs)"
    and "(p, d, t, z) \<in> set fs"
    and "LF \<notin> set d" and "C < length d"
  shows "\<exists>s before after.
     buildProject C fs = Some s \<and>
     outData s = before @ Built \<lparr>files = [File_new p 0 d t z], totalSize = length d\<rparr> # after \<and>
     (\<forall>r \<in> set (before @ after). \<exists>chunk. r = Built chunk) \<and>
     (\<forall>f \<in> set (chunkFiles (before @ after)). name f = p \<longrightarrow> count (contents f) = 0) \<and>
     map_option (\<lambda>(cd, off). (ChunkData_size cd, dataBytes cd))
       (prepareChunkData \<lparr>files = [File_new p 0 d t z], totalSize = length d\<rparr>) =
     Some (40 + length p + length d, d)"
proof -
  let ?tgt = "File_new p 0 d t z"
  have nn: "name ?tgt = p" "count (contents ?tgt) = length d"
    by (simp_all add: File_new_def Blob_of_def)
  from buildProject_long_line [OF assms] obtain s where
    s: "buildProject C fs = Some s" "written_once ?tgt s" "all_built s"
    by blast
  from s(2) obtain before after where
    o: "outData s = before @ Built \<lparr>files = [?tgt], totalSize = length d\<rparr> # after"
    and c: "\<forall>f \<in> set (chunkFiles (before @ after)). name f = p \<longrightarrow> count (contents f) = 0"
    unfolding written_once_def nn by blast
  have b: "\<forall>r \<in> set (before @ after). \<exists>chunk. r = Built chunk"
    using s(3) o by (auto simp: all_built_def)
  show ?thesis using s(1) o b c long_line_payload [of p d t z] by blast
qed

theorem long_line_one_chunk_witness:
  "(0::nat) < 4 \<and> (4::nat) < 2 ^ 31 \<and>
   distinct (map fst [(''p.txt'', ''pp'', 0, 2), (''a.txt'', replicate 13 (CHR ''a''), 0, 13),
                      (''q.txt'', ''qq'', 0, 2 :: 64 word)]) \<and>
   (''a.txt'', replicate 13 (CHR ''a''), 0, 13) \<in>
     set [(''p.txt'', ''pp'', 0, 2), (''a.txt'', replicate 13 (CHR ''a''), 0 :: 64 word, 13),
          (''q.txt'', ''qq'', 0, 2 :: 64 word)] \<and>
   LF \<notin> set (replicate 13 (CHR ''a'')) \<and> 4 < length (replicate 13 (CHR ''a'')) \<and>
   (\<exists>s before after.
     buildProject 4 [(''p.txt'', ''pp'', 0, 2), (''a.txt'', replicate 13 (CHR ''a''), 0, 13),
                     (''q.txt'', ''qq'', 0, 2)] = Some s \<and>
     outData s = before @
       Built \<lparr>files = [File_new ''a.txt'' 0 (replicate 13 (CHR ''a'')) 0 13],
              totalSize = length (replicate 13 (CHR ''a''))\<rparr> # after \<and>
     (\<forall>r \<in> set (before @ after). \<exists>chunk. r = Built chunk) \<and>
     (\<forall>f \<in> set (chunkFiles (before @ after)). name f = ''a.txt'' \<longrightarrow> count (contents f) = 0) \<and>
     map_option (\<lambda>(cd, off). (ChunkData_size cd, dataBytes cd))
       (prepareChunkData \<lparr>files = [File_new ''a.txt'' 0 (replicate 13 (CHR ''a'')) 0 13],
                          totalSize = length (replicate 13 (CHR ''a''))\<rparr>) =
     Some (40 + length ''a.txt'' + length (replicate 13 (CHR ''a'')), replicate 13 (CHR ''a'')))"
proof -
  have h: "(0::nat) < 4" "(4::nat) < 2 ^ 31"
    "distinct (map fst [(''p.txt'', ''pp'', 0, 2), (''a.txt'', replicate 13 (CHR ''a''), 0, 13),
                      (''q.txt'', ''qq'', 0, 2 :: 64 word)])"
    "(''a.txt'', replicate 13 (CHR ''a''), 0, 13) \<in>
     set [(''p.txt'', ''pp'', 0, 2), (''a.txt'', replicate 13 (CHR ''a''), 0 :: 64 word, 13),
          (''q.txt'', ''qq'', 0, 2 :: 64 word)]"
    "LF \<notin> set (replicate 13 (CHR ''a''))" "4 < length (replicate 13 (CHR ''a''))"
    by simp_all
  show ?thesis
    using h long_line_one_chunk [OF h] by blast
qed

end
